theory Spec2Isabelle
  imports Main
begin

section \<open>The sieve object\<close>

text \<open>
  The class \<^verbatim>\<open>prime_sieve\<close> of \<^verbatim>\<open>PrimeCPP_Threaded.cpp\<close> holds a
  \<^verbatim>\<open>vector<char> Bits\<close> and two \<^verbatim>\<open>uint64_t\<close> fields, \<^verbatim>\<open>Size\<close> and
  \<^verbatim>\<open>Threads\<close>. A cell only ever holds the characters 1 and 0, so a cell is a \<open>bool\<close>
  (1 is \<open>True\<close>). The unsigned fields are natural numbers; \<^verbatim>\<open>x >> 1\<close> is \<open>x div 2\<close>.
  The signed locals \<^verbatim>\<open>index\<close> and \<^verbatim>\<open>factor\<close> of the runner are integers. No
  arithmetic of the program leaves the 64-bit range for a \<^verbatim>\<open>Size\<close> whose vector can be
  allocated, so no wrap-around is written out.

  An access \<^verbatim>\<open>Bits[k]\<close> with \<open>k\<close> outside the vector is undefined behaviour in C++;
  the model makes it the value \<open>OutOfBounds\<close>.
\<close>

datatype fault = OutOfBounds

record prime_sieve =
  Bits :: "bool list"
  Size :: nat
  Threads :: nat

text \<open>
  The constructor: \<^verbatim>\<open>Bits(n >> 1, 1), Size(n), Threads(t)\<close> followed by
  \<^verbatim>\<open>Bits[0] = 0\<close>.
\<close>

definition new_prime_sieve :: "nat \<Rightarrow> nat \<Rightarrow> fault + prime_sieve" where
  "new_prime_sieve n t =
     (let bits = replicate (n div 2) True
      in if 0 < length bits
         then Inr \<lparr>Bits = bits[0 := False], Size = n, Threads = t\<rparr>
         else Inl OutOfBounds)"

text \<open>\<^verbatim>\<open>isPrime\<close>: \<^verbatim>\<open>if (n & 1) return Bits[n >> 1]; else return false;\<close>\<close>

definition isPrime :: "prime_sieve \<Rightarrow> nat \<Rightarrow> fault + bool" where
  "isPrime S n =
     (if odd n
      then (if n div 2 < length (Bits S) then Inr (Bits S ! (n div 2)) else Inl OutOfBounds)
      else Inr False)"

text \<open>
  \<^verbatim>\<open>countPrimes\<close>: the counter starts at \<^verbatim>\<open>(Size >= 2)\<close> and the loop runs over
  the cells from index 1.
\<close>

function countLoop :: "prime_sieve \<Rightarrow> nat \<Rightarrow> nat \<Rightarrow> nat" where
  "countLoop S i count =
     (if i < length (Bits S)
      then countLoop S (i + 1) (if Bits S ! i then count + 1 else count)
      else count)"
  by pat_completeness auto
termination
  by (relation "measure (\<lambda>(S, i, count). length (Bits S) - i)") auto

definition countPrimes :: "prime_sieve \<Rightarrow> nat" where
  "countPrimes S = countLoop S 1 (if 2 \<le> Size S then 1 else 0)"

text \<open>\<^verbatim>\<open>validateResults\<close> and its dictionary of known counts.\<close>

definition resultsDictionary :: "(nat \<times> nat) list" where
  "resultsDictionary =
     [(10, 4), (100, 25), (1000, 168), (10000, 1229), (100000, 9592),
      (1000000, 78498), (10000000, 664579), (100000000, 5761455),
      (1000000000, 50847534), (10000000000, 455052511)]"

definition validateResults :: "prime_sieve \<Rightarrow> bool" where
  "validateResults S =
     (case map_of resultsDictionary (Size S) of
        None \<Rightarrow> False
      | Some c \<Rightarrow> c = countPrimes S)"

section \<open>The runner of one thread\<close>

text \<open>
  \<^verbatim>\<open>(int) sqrt(Size)\<close> is the floor of the square root: the \<^verbatim>\<open>double\<close> computation is
  exact on every \<^verbatim>\<open>Size\<close> below \<open>2 ^ 52\<close>.
\<close>

fun isqrt :: "nat \<Rightarrow> nat" where
  "isqrt n =
     (if n < 2 then n
      else (let r = 2 * isqrt (n div 4)
            in if (r + 1) * (r + 1) \<le> n then r + 1 else r))"

declare isqrt.simps [simp del]
declare countLoop.simps [simp del]

text \<open>
  The threads share \<^verbatim>\<open>Bits\<close> and run unsynchronised. The model interleaves them at the
  grain of one access to a cell: a step of a runner reads one cell, or writes one cell,
  or ends a loop. This is the assumption the source states in its comment (a write of a
  byte is indivisible). The control points of \<^verbatim>\<open>runSieve(int64_t index)\<close> with the
  values of its locals:

  \<^item> \<open>Advancing index factor\<close>: at the test \<^verbatim>\<open>factor <= q\<close> of the outer loop;
  \<^item> \<open>MarkingThrees index factor num\<close>: at the test of the loop of the branch
    \<^verbatim>\<open>0 == index\<close>;
  \<^item> \<open>MarkingPairA index factor num\<close>: at the test of the first marking loop;
  \<^item> \<open>CheckPairB index factor\<close>: after \<^verbatim>\<open>factor += 2\<close>, at the second read;
  \<^item> \<open>MarkingPairB index factor num\<close>: at the test of the second marking loop;
  \<^item> \<open>Done\<close>: returned; \<open>Fault\<close>: an access outside the vector happened.
\<close>

datatype runner =
    Advancing int int
  | MarkingThrees int int nat
  | MarkingPairA int int nat
  | CheckPairB int int
  | MarkingPairB int int nat
  | Done
  | Fault

text \<open>\<^verbatim>\<open>Bits[k] = 0\<close>, then continue at \<open>w\<close>.\<close>

definition clearBit :: "prime_sieve \<Rightarrow> nat \<Rightarrow> runner \<Rightarrow> prime_sieve \<times> runner" where
  "clearBit S k w =
     (if k < length (Bits S) then (S\<lparr>Bits := (Bits S)[k := False]\<rparr>, w) else (S, Fault))"

text \<open>\<^verbatim>\<open>1 == Bits[factor >> 1]\<close>: the cell read, \<open>None\<close> outside the vector.\<close>

definition readBit :: "prime_sieve \<Rightarrow> int \<Rightarrow> bool option" where
  "readBit S factor =
     (if 0 \<le> factor div 2 \<and> nat (factor div 2) < length (Bits S)
      then Some (Bits S ! nat (factor div 2))
      else None)"

text \<open>\<^verbatim>\<open>index += Threads; factor = 6 * index - 1;\<close>\<close>

definition advance :: "prime_sieve \<Rightarrow> int \<Rightarrow> runner" where
  "advance S index = Advancing (index + int (Threads S)) (6 * (index + int (Threads S)) - 1)"

fun runnerStep :: "prime_sieve \<Rightarrow> runner \<Rightarrow> prime_sieve \<times> runner" where
  "runnerStep S (Advancing index factor) =
     (if factor \<le> int (isqrt (Size S))
      then (if 0 = index
            then (S, MarkingThrees index factor 9)
            else (case readBit S factor of
                    None \<Rightarrow> (S, Fault)
                  | Some True \<Rightarrow> (S, MarkingPairA index factor (nat (factor * factor)))
                  | Some False \<Rightarrow> (S, CheckPairB index (factor + 2))))
      else (S, Done))"
| "runnerStep S (MarkingThrees index factor num) =
     (if num < Size S
      then clearBit S (num div 2) (MarkingThrees index factor (num + 6))
      else (S, advance S index))"
| "runnerStep S (MarkingPairA index factor num) =
     (if num < Size S
      then clearBit S (num div 2) (MarkingPairA index factor (num + nat (2 * factor)))
      else (S, CheckPairB index (factor + 2)))"
| "runnerStep S (CheckPairB index factor) =
     (case readBit S factor of
        None \<Rightarrow> (S, Fault)
      | Some True \<Rightarrow> (S, MarkingPairB index factor (nat (factor * factor)))
      | Some False \<Rightarrow> (S, advance S index))"
| "runnerStep S (MarkingPairB index factor num) =
     (if num < Size S
      then clearBit S (num div 2) (MarkingPairB index factor (num + nat (2 * factor)))
      else (S, advance S index))"
| "runnerStep S Done = (S, Done)"
| "runnerStep S Fault = (S, Fault)"

section \<open>The threads of one run\<close>

text \<open>
  \<^verbatim>\<open>runSieve()\<close> starts one thread \<^verbatim>\<open>runSieve(i)\<close> for each \<open>i\<close> below
  \<^verbatim>\<open>Threads\<close> and joins them all. A schedule is the list of the thread numbers in the
  order in which the threads take their steps; a number that names no thread, or a
  thread that has returned, takes no step.
\<close>

type_synonym run_state = "prime_sieve \<times> runner list"

definition spawn :: "prime_sieve \<Rightarrow> runner list" where
  "spawn S = map (\<lambda>i. Advancing (int i) (6 * int i - 1)) [0..<Threads S]"

definition threadStep :: "nat \<Rightarrow> run_state \<Rightarrow> run_state" where
  "threadStep i st =
     (case st of (S, ws) \<Rightarrow>
        if i < length ws
        then (case runnerStep S (ws ! i) of (S', w') \<Rightarrow> (S', ws[i := w']))
        else st)"

definition exec :: "nat list \<Rightarrow> run_state \<Rightarrow> run_state" where
  "exec sched st = fold threadStep sched st"

definition runSieve :: "nat list \<Rightarrow> prime_sieve \<Rightarrow> run_state" where
  "runSieve sched S = exec sched (S, spawn S)"

definition joined :: "run_state \<Rightarrow> bool" where
  "joined st = list_all (\<lambda>w. w = Done) (snd st)"

section \<open>Primality by trial division\<close>

definition is_prime :: "nat \<Rightarrow> bool" where
  "is_prime n = (1 < n \<and> (\<forall>d \<in> {2..<n}. \<not> d dvd n))"

section \<open>The specification's words\<close>

text \<open>
  The specification gives the number of cells as \<open>ceil(limit / 2)\<close>; this definition
  follows its words, to be compared with the length the constructor allocates.
\<close>

definition cells_in_spec :: "nat \<Rightarrow> nat" where
  "cells_in_spec limit = (limit + 1) div 2"

section \<open>The invariant of a run\<close>

text \<open>
  The number \<open>m\<close> is struck when its cell is \<open>False\<close>. The factor \<open>f\<close> is sieved
  up to a bound when every odd multiple of \<open>f\<close> from \<open>f * f\<close> on, below the bound and
  below \<^verbatim>\<open>Size\<close>, is struck; this is what a marking loop has done when its
  \<^verbatim>\<open>num\<close> has reached the bound. The index \<open>k\<close> is handled when each of
  \<open>6 * k - 1\<close> and \<open>6 * k + 1\<close> that is prime is sieved up to \<^verbatim>\<open>Size\<close>.
\<close>

definition struck :: "prime_sieve \<Rightarrow> nat \<Rightarrow> bool" where
  "struck S m = (\<not> Bits S ! (m div 2))"

definition sieved :: "prime_sieve \<Rightarrow> nat \<Rightarrow> nat \<Rightarrow> bool" where
  "sieved S f bound =
     (\<forall>m. m < bound \<and> m < Size S \<and> odd m \<and> f dvd m \<and> f * f \<le> m \<longrightarrow> struck S m)"

definition handled :: "prime_sieve \<Rightarrow> nat \<Rightarrow> bool" where
  "handled S k =
     ((is_prime (6 * k - 1) \<longrightarrow> sieved S (6 * k - 1) (Size S)) \<and>
      (is_prime (6 * k + 1) \<longrightarrow> sieved S (6 * k + 1) (Size S)))"

text \<open>
  What thread \<open>j\<close> has done when its \<^verbatim>\<open>index\<close> has a given value: the index is one
  of its own, every earlier index of its own is handled, and thread 0, once its index
  has left 0, has sieved the factor 3.
\<close>

definition progress :: "prime_sieve \<Rightarrow> nat \<Rightarrow> int \<Rightarrow> bool" where
  "progress S j index =
     (0 \<le> index \<and> nat index mod Threads S = j \<and>
      (\<forall>k. 1 \<le> k \<and> k < nat index \<and> k mod Threads S = j \<longrightarrow> handled S k) \<and>
      (0 < index \<and> j = 0 \<longrightarrow> sieved S 3 (Size S)))"

fun runner_inv :: "prime_sieve \<Rightarrow> nat \<Rightarrow> runner \<Rightarrow> bool" where
  "runner_inv S j (Advancing index factor) =
     (progress S j index \<and> factor = 6 * index - 1)"
| "runner_inv S j (MarkingThrees index factor num) =
     (index = 0 \<and> j = 0 \<and> odd num \<and> 3 dvd num \<and> 9 \<le> num \<and> sieved S 3 num)"
| "runner_inv S j (MarkingPairA index factor num) =
     (progress S j index \<and> 1 \<le> index \<and> factor = 6 * index - 1 \<and>
      factor \<le> int (isqrt (Size S)) \<and>
      odd num \<and> nat factor dvd num \<and> nat factor * nat factor \<le> num \<and>
      sieved S (nat factor) num)"
| "runner_inv S j (CheckPairB index factor) =
     (progress S j index \<and> 1 \<le> index \<and> factor = 6 * index + 1 \<and>
      6 * index - 1 \<le> int (isqrt (Size S)) \<and>
      (is_prime (nat (6 * index - 1)) \<longrightarrow> sieved S (nat (6 * index - 1)) (Size S)))"
| "runner_inv S j (MarkingPairB index factor num) =
     (progress S j index \<and> 1 \<le> index \<and> factor = 6 * index + 1 \<and>
      6 * index - 1 \<le> int (isqrt (Size S)) \<and>
      (is_prime (nat (6 * index - 1)) \<longrightarrow> sieved S (nat (6 * index - 1)) (Size S)) \<and>
      odd num \<and> nat factor dvd num \<and> nat factor * nat factor \<le> num \<and>
      sieved S (nat factor) num)"
| "runner_inv S j Done =
     (\<exists>index. progress S j index \<and> int (isqrt (Size S)) < 6 * index - 1)"
| "runner_inv S j Fault = False"

text \<open>
  The invariant of the shared sieve: the vector has its length, cell 0 is \<open>False\<close>, and
  the cell of a prime is \<open>True\<close>.
\<close>

definition store_inv :: "prime_sieve \<Rightarrow> bool" where
  "store_inv S =
     (2 \<le> Size S \<and> 1 \<le> Threads S \<and> length (Bits S) = Size S div 2 \<and> \<not> Bits S ! 0 \<and>
      (\<forall>i < length (Bits S). is_prime (2 * i + 1) \<longrightarrow> Bits S ! i))"

definition sieve_inv :: "run_state \<Rightarrow> bool" where
  "sieve_inv st =
     (store_inv (fst st) \<and> length (snd st) = Threads (fst st) \<and>
      (\<forall>j < length (snd st). runner_inv (fst st) j (snd st ! j)))"

section \<open>A bound on the steps of a runner\<close>

text \<open>
  A measure of what one runner still has to do: the rounds of the outer loop that are
  left, each weighed with a bound on the steps of one round, and inside a round the
  control point and the distance of \<^verbatim>\<open>num\<close> from \<^verbatim>\<open>Size\<close>.
\<close>

definition rounds_left :: "prime_sieve \<Rightarrow> int \<Rightarrow> nat" where
  "rounds_left S index = nat (int (isqrt (Size S)) + 3 - 6 * index)"

definition round_weight :: "prime_sieve \<Rightarrow> nat" where
  "round_weight S = 2 * Size S + 7"

fun steps_left :: "prime_sieve \<Rightarrow> runner \<Rightarrow> nat" where
  "steps_left S (Advancing index factor) = 1 + rounds_left S index * round_weight S"
| "steps_left S (MarkingThrees index factor num) =
     2 + (rounds_left S index - 1) * round_weight S + (Size S - num)"
| "steps_left S (MarkingPairA index factor num) =
     4 + (rounds_left S index - 1) * round_weight S + Size S + (Size S - num)"
| "steps_left S (CheckPairB index factor) =
     3 + (rounds_left S index - 1) * round_weight S + Size S"
| "steps_left S (MarkingPairB index factor num) =
     2 + (rounds_left S index - 1) * round_weight S + (Size S - num)"
| "steps_left S Done = 0"
| "steps_left S Fault = 0"

definition work_left :: "run_state \<Rightarrow> nat" where
  "work_left st = sum_list (map (steps_left (fst st)) (snd st))"

section \<open>One runner on its own\<close>





section \<open>Counting primes with Legendre's formula\<close>

text \<open>
  The dictionary of \<^verbatim>\<open>validateResults\<close> holds counts of primes below limits up to
  \<open>10\<^sup>1\<^sup>0\<close>. Trial division cannot be evaluated that far; Legendre's formula can, up
  to one million. \<open>legendre x ps\<close> is the count of the numbers from 1 to \<open>x\<close> that no
  element of \<open>ps\<close> divides, for a list \<open>ps\<close> of all the primes up to its head in
  descending order; \<open>peel\<close> sums the terms that the first primes of such a list
  contribute.
\<close>

fun legendre :: "nat \<Rightarrow> nat list \<Rightarrow> nat" where
  "legendre x [] = x"
| "legendre x [p] = x - x div p"
| "legendre x (p # q # ps) =
     (if x \<le> p then (if x = 0 then 0 else 1)
      else legendre x (q # ps) - legendre (x div p) (q # ps))"

fun peel :: "nat \<Rightarrow> nat list \<Rightarrow> nat list \<Rightarrow> nat" where
  "peel x [] qs = 0"
| "peel x (p # ps) qs = legendre (x div p) (ps @ qs) + peel x ps qs"

definition unsieved :: "nat \<Rightarrow> nat list \<Rightarrow> nat set" where
  "unsieved x ps = {n. 1 \<le> n \<and> n \<le> x \<and> (\<forall>p \<in> set ps. \<not> p dvd n)}"

fun descending :: "nat list \<Rightarrow> bool" where
  "descending [] = True"
| "descending [p] = True"
| "descending (p # q # ps) = (q < p \<and> descending (q # ps))"

definition primes_down :: "nat list \<Rightarrow> bool" where
  "primes_down ps =
     ((\<forall>p \<in> set ps. is_prime p \<and> (\<forall>q. is_prime q \<and> q \<le> p \<longrightarrow> q \<in> set ps)) \<and>
      descending ps)"

definition primes_31 :: "nat list" where
  "primes_31 =
     [31, 29, 23, 19, 17, 13, 11, 7, 5, 3, 2]"

definition primes_103 :: "nat list" where
  "primes_103 =
     [103, 101, 97, 89, 83, 79, 73, 71, 67, 61, 59, 53, 47, 43, 41, 37]
     @ primes_31"

definition primes_191 :: "nat list" where
  "primes_191 =
     [191, 181, 179, 173, 167, 163, 157, 151, 149, 139, 137, 131, 127, 113, 109, 107]
     @ primes_103"

definition primes_347 :: "nat list" where
  "primes_347 =
     [347, 337, 331, 317, 313, 311, 307, 293, 283, 281, 277, 271, 269, 263, 257, 251,
      241, 239, 233, 229, 227, 223, 211, 199, 197, 193]
     @ primes_191"

definition primes_547 :: "nat list" where
  "primes_547 =
     [547, 541, 523, 521, 509, 503, 499, 491, 487, 479, 467, 463, 461, 457, 449, 443,
      439, 433, 431, 421, 419, 409, 401, 397, 389, 383, 379, 373, 367, 359, 353, 349]
     @ primes_347"

definition primes_769 :: "nat list" where
  "primes_769 =
     [769, 761, 757, 751, 743, 739, 733, 727, 719, 709, 701, 691, 683, 677, 673, 661,
      659, 653, 647, 643, 641, 631, 619, 617, 613, 607, 601, 599, 593, 587, 577, 571,
      569, 563, 557]
     @ primes_547"

definition primes_997 :: "nat list" where
  "primes_997 =
     [997, 991, 983, 977, 971, 967, 953, 947, 941, 937, 929, 919, 911, 907, 887, 883,
      881, 877, 863, 859, 857, 853, 839, 829, 827, 823, 821, 811, 809, 797, 787, 773]
     @ primes_769"

section \<open>Fields and lengths\<close>


lemma countLoop_eq:
  "countLoop S i c = c + length (filter (\<lambda>b. b) (drop i (Bits S)))"
proof (induction S i c rule: countLoop.induct)
  case (1 S i count)
  show ?case
  proof (cases "i < length (Bits S)")
    case True
    then have d: "drop i (Bits S) = Bits S ! i # drop (Suc i) (Bits S)"
      by (simp add: Cons_nth_drop_Suc)
    from True 1 show ?thesis
      by (subst countLoop.simps) (simp add: d)
  next
    case False
    then show ?thesis by (subst countLoop.simps) simp
  qed
qed

lemma countPrimes_eq:
  "countPrimes S = (if 2 \<le> Size S then 1 else 0) + length (filter (\<lambda>b. b) (drop 1 (Bits S)))"
  by (simp add: countPrimes_def countLoop_eq)

lemma new_prime_sieve_Inr:
  "new_prime_sieve n t = Inr S \<longleftrightarrow>
     2 \<le> n \<and> S = \<lparr>Bits = (replicate (n div 2) True)[0 := False], Size = n, Threads = t\<rparr>"
  by (auto simp: new_prime_sieve_def Let_def)

lemma clearBit_fields:
  "clearBit S k w = (S', w') \<Longrightarrow>
     Size S' = Size S \<and> Threads S' = Threads S \<and> length (Bits S') = length (Bits S)"
  by (auto simp: clearBit_def split: if_splits)

lemma runnerStep_fields:
  "runnerStep S w = (S', w') \<Longrightarrow>
     Size S' = Size S \<and> Threads S' = Threads S \<and> length (Bits S') = length (Bits S)"
  by (cases w) (simp_all add: clearBit_def split: if_splits option.splits bool.splits, auto)

lemma threadStep_fields:
  "threadStep i st = st' \<Longrightarrow>
     Size (fst st') = Size (fst st) \<and> Threads (fst st') = Threads (fst st) \<and>
     length (Bits (fst st')) = length (Bits (fst st)) \<and> length (snd st') = length (snd st)"
  by (auto simp: threadStep_def split: prod.splits if_splits dest: runnerStep_fields)

lemma exec_fields:
  "Size (fst (exec sched st)) = Size (fst st) \<and> Threads (fst (exec sched st)) = Threads (fst st) \<and>
     length (Bits (fst (exec sched st))) = length (Bits (fst st)) \<and>
     length (snd (exec sched st)) = length (snd st)"
proof (induction sched arbitrary: st)
  case Nil
  then show ?case by (simp add: exec_def)
next
  case (Cons i sched)
  have "exec (i # sched) st = exec sched (threadStep i st)" by (simp add: exec_def)
  with Cons [of "threadStep i st"] threadStep_fields [OF refl, of i st] show ?case by simp
qed

lemma runSieve_fields:
  assumes "new_prime_sieve limit t = Inr S0"
  shows "Size (fst (runSieve sched S0)) = limit \<and> Threads (fst (runSieve sched S0)) = t \<and>
         length (Bits (fst (runSieve sched S0))) = limit div 2"
  using assms exec_fields [of sched "(S0, spawn S0)"]
  by (auto simp: runSieve_def new_prime_sieve_Inr)

section \<open>Reading the sieve\<close>

text \<open>
  Claim C4. For every constructed sieve, at any moment of a run, and every \<open>n\<close> below
  the limit, \<^verbatim>\<open>isPrime(n)\<close> returns the value of cell \<open>(n - 1) div 2\<close> when \<open>n\<close>
  is odd and \<open>False\<close> when \<open>n\<close> is even, the number 2 included.
\<close>

theorem isPrime_reads_cell:
  assumes "new_prime_sieve limit t = Inr S0" and "n < limit"
  shows "isPrime (fst (runSieve sched S0)) n =
           Inr (if odd n then Bits (fst (runSieve sched S0)) ! ((n - 1) div 2) else False)"
proof (cases "odd n")
  case True
  with assms(2) have "n div 2 < limit div 2" by presburger
  moreover from True have "(n - 1) div 2 = n div 2" by presburger
  ultimately show ?thesis
    using True runSieve_fields [OF assms(1), of sched] by (simp add: isPrime_def)
next
  case False
  then show ?thesis by (simp add: isPrime_def)
qed

theorem isPrime_reads_cell_witness:
  "new_prime_sieve 10 2 = Inr \<lparr>Bits = [False, True, True, True, True], Size = 10, Threads = 2\<rparr>
   \<and> (7::nat) < 10
   \<and> isPrime (fst (runSieve [0, 1, 0, 0] \<lparr>Bits = [False, True, True, True, True], Size = 10, Threads = 2\<rparr>)) 7
       = Inr (Bits (fst (runSieve [0, 1, 0, 0] \<lparr>Bits = [False, True, True, True, True], Size = 10, Threads = 2\<rparr>)) ! 3)"
proof -
  have c: "new_prime_sieve 10 2 = Inr \<lparr>Bits = [False, True, True, True, True], Size = 10, Threads = 2\<rparr>"
    by code_simp
  have l: "(7::nat) < 10" by simp
  show ?thesis using c isPrime_reads_cell [OF c l, of "[0, 1, 0, 0]"] by simp
qed


section \<open>Construction\<close>

text \<open>
  Claim C5 as stated fails: for the limit 11 the constructor allocates \<open>11 div 2 = 5\<close>
  cells, not the 6 cells of \<open>ceil(11 / 2)\<close>.
\<close>

theorem construct_length_counterexample:
  "new_prime_sieve 11 1 = Inr \<lparr>Bits = [False, True, True, True, True], Size = 11, Threads = 1\<rparr>
   \<and> length [False, True, True, True, True] \<noteq> cells_in_spec 11"
  by code_simp

text \<open>
  Claim C5, amended. For every limit of at least 2 and every worker count, construction
  gives a sieve with exactly \<open>limit div 2\<close> cells (the floor of half the limit), cell
  \<open>i\<close> being the cell that \<^verbatim>\<open>isPrime\<close> reads for the odd number \<open>2 * i + 1\<close>,
  which is below the limit; cell 0 is \<open>False\<close> and every other cell is \<open>True\<close>.
\<close>

theorem construct_cells:
  assumes "2 \<le> limit"
  shows "\<exists>S. new_prime_sieve limit t = Inr S \<and> Size S = limit \<and> Threads S = t
           \<and> length (Bits S) = limit div 2
           \<and> \<not> Bits S ! 0
           \<and> (\<forall>i. 0 < i \<and> i < limit div 2 \<longrightarrow> Bits S ! i)
           \<and> (\<forall>i < limit div 2. 2 * i + 1 < limit \<and> isPrime S (2 * i + 1) = Inr (Bits S ! i))"
proof -
  let ?S = "\<lparr>Bits = (replicate (limit div 2) True)[0 := False], Size = limit, Threads = t\<rparr>"
  from assms have c: "new_prime_sieve limit t = Inr ?S" by (simp add: new_prime_sieve_Inr)
  from assms have pos: "0 < limit div 2" by presburger
  have "\<forall>i < limit div 2. 2 * i + 1 < limit \<and> isPrime ?S (2 * i + 1) = Inr (Bits ?S ! i)"
  proof (intro allI impI conjI)
    fix i assume i: "i < limit div 2"
    then show "2 * i + 1 < limit" by presburger
    have "(2 * i + 1) div 2 = i" by presburger
    with i show "isPrime ?S (2 * i + 1) = Inr (Bits ?S ! i)" by (simp add: isPrime_def)
  qed
  with c pos show ?thesis by (intro exI [of _ ?S]) simp
qed

theorem construct_cells_witness:
  "(2::nat) \<le> 11 \<and>
   (\<exists>S. new_prime_sieve 11 3 = Inr S \<and> length (Bits S) = 5 \<and> \<not> Bits S ! 0 \<and> Bits S ! 4
        \<and> isPrime S 9 = Inr (Bits S ! 4))"
proof -
  have h: "(2::nat) \<le> 11" by simp
  from construct_cells [OF h, of 3] obtain S where
    S: "new_prime_sieve 11 3 = Inr S" "length (Bits S) = 11 div 2" "\<not> Bits S ! 0"
       "\<forall>i. 0 < i \<and> i < 11 div 2 \<longrightarrow> Bits S ! i"
       "\<forall>i < 11 div 2. 2 * i + 1 < 11 \<and> isPrime S (2 * i + 1) = Inr (Bits S ! i)"
    by blast
  from S(4) have "Bits S ! 4" by simp
  moreover from S(5) [rule_format, of 4] have "isPrime S 9 = Inr (Bits S ! 4)" by simp
  ultimately show ?thesis using S(1,2,3) by (intro conjI exI [of _ S]) simp_all
qed


section \<open>Validation\<close>

text \<open>
  Claim C7. \<^verbatim>\<open>validateResults\<close> returns \<open>False\<close> whenever the limit is not a key of the
  dictionary of known counts (the limit 11, for one), and for a key it returns \<open>True\<close>
  exactly when the count of \<^verbatim>\<open>countPrimes\<close> equals the stored count (for the limit
  1000 and the count 168, for one).
\<close>

theorem validateResults_table:
  "(Size S \<notin> fst ` set resultsDictionary \<longrightarrow> \<not> validateResults S) \<and>
   (\<forall>c. (Size S, c) \<in> set resultsDictionary \<longrightarrow> validateResults S = (countPrimes S = c)) \<and>
   (Size S = 11 \<longrightarrow> \<not> validateResults S) \<and>
   (Size S = 1000 \<and> countPrimes S = 168 \<longrightarrow> validateResults S)"
proof (intro conjI)
  have none: "map_of resultsDictionary (Size S) = None \<Longrightarrow> \<not> validateResults S"
    by (simp add: validateResults_def)
  show "Size S \<notin> fst ` set resultsDictionary \<longrightarrow> \<not> validateResults S"
    using none by (simp add: map_of_eq_None_iff)
  have dist: "distinct (map fst resultsDictionary)"
    by (simp add: resultsDictionary_def)
  show "\<forall>c. (Size S, c) \<in> set resultsDictionary \<longrightarrow> validateResults S = (countPrimes S = c)"
  proof (intro allI impI)
    fix c assume "(Size S, c) \<in> set resultsDictionary"
    with dist have "map_of resultsDictionary (Size S) = Some c" by simp
    then show "validateResults S = (countPrimes S = c)"
      by (auto simp: validateResults_def)
  qed
  show "Size S = 11 \<longrightarrow> \<not> validateResults S"
    by (simp add: validateResults_def resultsDictionary_def)
  show "Size S = 1000 \<and> countPrimes S = 168 \<longrightarrow> validateResults S"
    by (simp add: validateResults_def resultsDictionary_def)
qed

theorem validateResults_table_witness:
  "(11::nat) \<notin> fst ` set resultsDictionary
   \<and> \<not> validateResults \<lparr>Bits = [False, True, True, True, False], Size = 11, Threads = 1\<rparr>
   \<and> (10, 4) \<in> set resultsDictionary
   \<and> countPrimes \<lparr>Bits = [False, True, True, True, False], Size = 10, Threads = 1\<rparr> = 4
   \<and> validateResults \<lparr>Bits = [False, True, True, True, False], Size = 10, Threads = 1\<rparr>"
proof -
  have a: "(11::nat) \<notin> fst ` set resultsDictionary" by (simp add: resultsDictionary_def)
  have b: "(10, 4) \<in> set resultsDictionary" by (simp add: resultsDictionary_def)
  have c: "countPrimes \<lparr>Bits = [False, True, True, True, False], Size = 10, Threads = 1\<rparr> = 4"
    by code_simp
  show ?thesis
    using a b c
      validateResults_table [of "\<lparr>Bits = [False, True, True, True, False], Size = 11, Threads = 1\<rparr>"]
      validateResults_table [of "\<lparr>Bits = [False, True, True, True, False], Size = 10, Threads = 1\<rparr>"]
    by simp
qed

section \<open>The bounds of the read of isPrime\<close>

text \<open>
  Claim C10. \<^verbatim>\<open>isPrime\<close> checks no bound. For every sieve constructed with a limit
  of at least 2, at any moment of a run, the read is inside the vector for every \<open>n\<close>
  below the limit (for odd \<open>n\<close> the index \<open>(n - 1) div 2\<close> is below \<open>limit div 2\<close>,
  the length of the vector), and for every odd \<open>n\<close> from the limit on the read is
  outside the vector.
\<close>

theorem isPrime_in_bounds:
  assumes "2 \<le> limit"
  shows "\<exists>S0. new_prime_sieve limit t = Inr S0 \<and>
           (\<forall>sched n.
              length (Bits (fst (runSieve sched S0))) = limit div 2 \<and>
              (n < limit \<longrightarrow> isPrime (fst (runSieve sched S0)) n \<noteq> Inl OutOfBounds) \<and>
              (odd n \<and> n < limit \<longrightarrow> (n - 1) div 2 < limit div 2) \<and>
              (odd n \<and> limit \<le> n \<longrightarrow> isPrime (fst (runSieve sched S0)) n = Inl OutOfBounds))"
proof -
  from assms obtain S0 where S0: "new_prime_sieve limit t = Inr S0"
    by (auto simp: new_prime_sieve_Inr)
  have "length (Bits (fst (runSieve sched S0))) = limit div 2 \<and>
        (n < limit \<longrightarrow> isPrime (fst (runSieve sched S0)) n \<noteq> Inl OutOfBounds) \<and>
        (odd n \<and> n < limit \<longrightarrow> (n - 1) div 2 < limit div 2) \<and>
        (odd n \<and> limit \<le> n \<longrightarrow> isPrime (fst (runSieve sched S0)) n = Inl OutOfBounds)"
    for sched n
  proof -
    have len: "length (Bits (fst (runSieve sched S0))) = limit div 2"
      using runSieve_fields [OF S0, of sched] by simp
    have lt: "odd n \<and> n < limit \<longrightarrow> n div 2 < limit div 2" by presburger
    have lt': "odd n \<and> n < limit \<longrightarrow> (n - 1) div 2 < limit div 2" by presburger
    have ge: "odd n \<and> limit \<le> n \<longrightarrow> \<not> n div 2 < limit div 2" by presburger
    from len lt lt' ge show ?thesis by (auto simp: isPrime_def)
  qed
  with S0 show ?thesis by blast
qed

theorem isPrime_in_bounds_witness:
  "(2::nat) \<le> 10 \<and>
   (\<exists>S0. new_prime_sieve 10 2 = Inr S0 \<and>
      isPrime (fst (runSieve [0, 1, 1, 0] S0)) 9 \<noteq> Inl OutOfBounds \<and>
      isPrime (fst (runSieve [0, 1, 1, 0] S0)) 11 = Inl OutOfBounds)"
proof -
  have h: "(2::nat) \<le> 10" by simp
  from isPrime_in_bounds [OF h, of 2] obtain S0 where
    S0: "new_prime_sieve 10 2 = Inr S0" and
    all: "\<And>sched n. (n < 10 \<longrightarrow> isPrime (fst (runSieve sched S0)) n \<noteq> Inl OutOfBounds) \<and>
              (odd n \<and> 10 \<le> n \<longrightarrow> isPrime (fst (runSieve sched S0)) n = Inl OutOfBounds)"
    by blast
  from all [of 9 "[0, 1, 1, 0]"] have a: "isPrime (fst (runSieve [0, 1, 1, 0] S0)) 9 \<noteq> Inl OutOfBounds"
    by simp
  from all [of 11 "[0, 1, 1, 0]"] have b: "isPrime (fst (runSieve [0, 1, 1, 0] S0)) 11 = Inl OutOfBounds"
    by simp
  from h S0 a b show ?thesis by blast
qed


section \<open>Cells only go from true to false\<close>

lemma runnerStep_bits:
  "Bits (fst (runnerStep S w)) = Bits S \<or>
   (\<exists>k < length (Bits S). Bits (fst (runnerStep S w)) = (Bits S)[k := False])"
  by (cases w) (auto simp: clearBit_def split: option.splits bool.splits)

lemma runnerStep_mono:
  assumes "i < length (Bits S)" and "Bits (fst (runnerStep S w)) ! i"
  shows "Bits S ! i"
proof -
  from runnerStep_bits [of S w] consider
    "Bits (fst (runnerStep S w)) = Bits S"
    | k where "k < length (Bits S)" "Bits (fst (runnerStep S w)) = (Bits S)[k := False]"
    by blast
  then show ?thesis
  proof cases
    case 1
    with assms show ?thesis by simp
  next
    case 2
    with assms show ?thesis by (cases "i = k") simp_all
  qed
qed

lemma threadStep_mono:
  assumes "i < length (Bits (fst st))" and "Bits (fst (threadStep j st)) ! i"
  shows "Bits (fst st) ! i"
proof (cases st)
  case (Pair S ws)
  show ?thesis
  proof (cases "j < length ws")
    case True
    with Pair have "fst (threadStep j st) = fst (runnerStep S (ws ! j))"
      by (simp add: threadStep_def split: prod.splits)
    with assms Pair show ?thesis using runnerStep_mono [of i S "ws ! j"] by simp
  next
    case False
    with Pair assms show ?thesis by (simp add: threadStep_def)
  qed
qed

lemma exec_Cons: "exec (j # sched) st = exec sched (threadStep j st)"
  by (simp add: exec_def)

lemma exec_Nil: "exec [] st = st"
  by (simp add: exec_def)

lemma exec_append: "exec (xs @ ys) st = exec ys (exec xs st)"
  by (simp add: exec_def)

lemma exec_mono:
  "i < length (Bits (fst st)) \<Longrightarrow> Bits (fst (exec sched st)) ! i \<Longrightarrow> Bits (fst st) ! i"
proof (induction sched arbitrary: st)
  case Nil
  then show ?case by (simp add: exec_Nil)
next
  case (Cons j sched)
  have len: "length (Bits (fst (threadStep j st))) = length (Bits (fst st))"
    using threadStep_fields [OF refl, of j st] by simp
  from Cons.prems have "Bits (fst (exec sched (threadStep j st))) ! i" by (simp add: exec_Cons)
  with Cons.IH [of "threadStep j st"] Cons.prems(1) len
  have "Bits (fst (threadStep j st)) ! i" by simp
  with Cons.prems(1) show ?case by (rule threadStep_mono)
qed

text \<open>
  Claim C8. Every step of a runner leaves the cells as they are or sets one cell to
  \<open>False\<close>; no step, and no sequence of steps of any threads, takes a cell from \<open>False\<close>
  to \<open>True\<close>; a marked cell is \<open>False\<close>, and marking it a second time changes nothing.
\<close>

theorem marking_only_clears:
  "(Bits (fst (runnerStep S w)) = Bits S \<or>
      (\<exists>k < length (Bits S). Bits (fst (runnerStep S w)) = (Bits S)[k := False])) \<and>
   (\<forall>i < length (Bits (fst st)). \<not> Bits (fst st) ! i \<longrightarrow> \<not> Bits (fst (exec sched st)) ! i) \<and>
   (\<forall>i < length (Bits S0). \<not> Bits S0 ! i \<longrightarrow> \<not> Bits (fst (runSieve sched S0)) ! i) \<and>
   (k < length (Bits S) \<longrightarrow> \<not> Bits (fst (clearBit S k w)) ! k) \<and>
   Bits (fst (clearBit (fst (clearBit S k w)) k w')) = Bits (fst (clearBit S k w))"
proof (intro conjI)
  show "Bits (fst (runnerStep S w)) = Bits S \<or>
      (\<exists>k < length (Bits S). Bits (fst (runnerStep S w)) = (Bits S)[k := False])"
    by (rule runnerStep_bits)
  show "\<forall>i < length (Bits (fst st)). \<not> Bits (fst st) ! i \<longrightarrow> \<not> Bits (fst (exec sched st)) ! i"
    using exec_mono by blast
  show "\<forall>i < length (Bits S0). \<not> Bits S0 ! i \<longrightarrow> \<not> Bits (fst (runSieve sched S0)) ! i"
    using exec_mono [of _ "(S0, spawn S0)" sched] by (auto simp: runSieve_def)
  show "k < length (Bits S) \<longrightarrow> \<not> Bits (fst (clearBit S k w)) ! k"
    by (simp add: clearBit_def)
  show "Bits (fst (clearBit (fst (clearBit S k w)) k w')) = Bits (fst (clearBit S k w))"
    by (simp add: clearBit_def)
qed

theorem marking_only_clears_witness:
  "(4::nat) < length (Bits \<lparr>Bits = [False, True, True, True, False], Size = 10, Threads = 1\<rparr>)
   \<and> \<not> Bits \<lparr>Bits = [False, True, True, True, False], Size = 10, Threads = 1\<rparr> ! 4
   \<and> \<not> Bits (fst (runSieve [0, 0, 0, 0] \<lparr>Bits = [False, True, True, True, False], Size = 10, Threads = 1\<rparr>)) ! 4
   \<and> \<not> Bits (fst (clearBit \<lparr>Bits = [False, True, True, True, False], Size = 10, Threads = 1\<rparr> 4 Done)) ! 4"
  using marking_only_clears [where S = "\<lparr>Bits = [False, True, True, True, False], Size = 10, Threads = 1\<rparr>"
      and S0 = "\<lparr>Bits = [False, True, True, True, False], Size = 10, Threads = 1\<rparr>"
      and sched = "[0, 0, 0, 0]" and k = 4 and w = Done]
  by simp


section \<open>Square roots and primes\<close>

lemma isqrt_bounds: "isqrt n * isqrt n \<le> n \<and> n < (isqrt n + 1) * (isqrt n + 1)"
proof (induction n rule: isqrt.induct)
  case (1 n)
  show ?case
  proof (cases "n < 2")
    case True
    then have "isqrt n = n" by (simp add: isqrt.simps)
    with True show ?thesis by (cases n) auto
  next
    case False
    define s where "s = isqrt (n div 4)"
    from False 1 have IH: "s * s \<le> n div 4 \<and> n div 4 < (s + 1) * (s + 1)"
      by (simp add: s_def)
    have lo: "(2 * s) * (2 * s) \<le> n"
    proof -
      have "(2 * s) * (2 * s) = 4 * (s * s)" by simp
      also from IH have "\<dots> \<le> 4 * (n div 4)" by simp
      also have "\<dots> \<le> n" by simp
      finally show ?thesis .
    qed
    have hi: "n < (2 * s + 2) * (2 * s + 2)"
    proof -
      from IH have "n div 4 + 1 \<le> (s + 1) * (s + 1)" by simp
      then have "4 * (n div 4 + 1) \<le> 4 * ((s + 1) * (s + 1))" by simp
      moreover have "n < 4 * (n div 4 + 1)" by presburger
      moreover have "4 * ((s + 1) * (s + 1)) = (2 * s + 2) * (2 * s + 2)" by (simp add: algebra_simps)
      ultimately show ?thesis by linarith
    qed
    show ?thesis
    proof (cases "(2 * s + 1) * (2 * s + 1) \<le> n")
      case True
      with False have "isqrt n = 2 * s + 1"
        by (subst isqrt.simps) (simp add: s_def Let_def)
      moreover have "2 * s + 1 + 1 = 2 * s + 2" by simp
      ultimately show ?thesis using True hi by simp
    next
      case f: False
      with False have "isqrt n = 2 * s"
        by (subst isqrt.simps) (simp add: s_def Let_def)
      with f lo show ?thesis by simp
    qed
  qed
qed

lemma isqrt_ge: "p * p \<le> n \<Longrightarrow> p \<le> isqrt n"
proof (rule ccontr)
  assume p: "p * p \<le> n" and "\<not> p \<le> isqrt n"
  then have le: "isqrt n + 1 \<le> p" by simp
  have "(isqrt n + 1) * (isqrt n + 1) \<le> p * p" by (rule mult_le_mono [OF le le])
  with isqrt_bounds [of n] p show False by linarith
qed

lemma isqrt_sq_le: "p \<le> isqrt n \<Longrightarrow> p * p \<le> n"
proof -
  assume le: "p \<le> isqrt n"
  have "p * p \<le> isqrt n * isqrt n" by (rule mult_le_mono [OF le le])
  with isqrt_bounds [of n] show ?thesis by linarith
qed

lemma is_prime_ge2: "is_prime p \<Longrightarrow> 2 \<le> p"
  by (simp add: is_prime_def)

lemma is_prime_dvd: "is_prime p \<Longrightarrow> 2 \<le> d \<Longrightarrow> d < p \<Longrightarrow> \<not> d dvd p"
  by (simp add: is_prime_def)

lemma not_prime_mult: "2 \<le> a \<Longrightarrow> 2 \<le> b \<Longrightarrow> \<not> is_prime (a * b)"
proof
  assume a: "2 \<le> a" and b: "2 \<le> b" and p: "is_prime (a * b)"
  from a b have "a * 2 \<le> a * b" by simp
  with a have "a < a * b" by linarith
  with is_prime_dvd [OF p a] show False by simp
qed

lemma prime_factor_le_sqrt:
  assumes "1 < m" and "\<not> is_prime m"
  shows "\<exists>p. is_prime p \<and> p dvd m \<and> p * p \<le> m"
proof -
  from assms obtain d where d: "2 \<le> d" "d < m" "d dvd m"
    by (auto simp: is_prime_def)
  define p where "p = (LEAST d. 2 \<le> d \<and> d dvd m)"
  from d have ex: "2 \<le> d \<and> d dvd m" by simp
  have p: "2 \<le> p \<and> p dvd m" unfolding p_def by (rule LeastI [of _ d]) (rule ex)
  have least: "\<And>e. 2 \<le> e \<Longrightarrow> e dvd m \<Longrightarrow> p \<le> e"
    unfolding p_def by (rule Least_le) simp
  have "is_prime p"
    unfolding is_prime_def
  proof (intro conjI ballI notI)
    from p show "1 < p" by simp
  next
    fix e assume e: "e \<in> {2..<p}" and "e dvd p"
    with p have "e dvd m" using dvd_trans by blast
    with e least [of e] show False by simp
  qed
  moreover from p obtain c where c: "m = p * c" by (auto elim: dvdE)
  have "p * p \<le> m"
  proof -
    from least [of d] d have "p < m" by simp
    with c p have "2 \<le> c" by (cases c; cases "c - 1") auto
    moreover from c have "c dvd m" by simp
    ultimately have "p \<le> c" by (rule least)
    then have "p * p \<le> p * c" by simp
    with c show ?thesis by simp
  qed
  ultimately show ?thesis using p by blast
qed

lemma prime_mod6:
  assumes "is_prime p" and "5 \<le> p"
  shows "p mod 6 = 1 \<or> p mod 6 = 5"
proof -
  from assms have "\<not> 2 dvd p" by (intro is_prime_dvd) simp_all
  moreover from assms have "\<not> 3 dvd p" by (intro is_prime_dvd) simp_all
  ultimately show ?thesis by presburger
qed


section \<open>Clearing a cell keeps what has been done\<close>

lemma struck_clear: "struck S m \<Longrightarrow> struck (S\<lparr>Bits := (Bits S)[k := False]\<rparr>) m"
  by (cases "k < length (Bits S)") (simp_all add: struck_def nth_list_update list_update_beyond)

lemma struck_clear_self:
  "k < length (Bits S) \<Longrightarrow> m div 2 = k \<Longrightarrow> struck (S\<lparr>Bits := (Bits S)[k := False]\<rparr>) m"
  by (simp add: struck_def)

lemma sieved_clear: "sieved S f b \<Longrightarrow> sieved (S\<lparr>Bits := (Bits S)[k := False]\<rparr>) f b"
  by (simp add: sieved_def struck_clear)

lemma handled_clear: "handled S i \<Longrightarrow> handled (S\<lparr>Bits := (Bits S)[k := False]\<rparr>) i"
  using sieved_clear [of S _ "Size S" k] by (simp add: handled_def)

lemma progress_clear:
  "progress S j index \<Longrightarrow> progress (S\<lparr>Bits := (Bits S)[k := False]\<rparr>) j index"
  using sieved_clear [of S 3 "Size S" k] by (simp add: progress_def handled_clear)

lemma runner_inv_clear:
  "runner_inv S j w \<Longrightarrow> runner_inv (S\<lparr>Bits := (Bits S)[k := False]\<rparr>) j w"
proof (cases w)
  case (Advancing index factor)
  assume "runner_inv S j w"
  with Advancing show ?thesis by (simp add: progress_clear)
next
  case (MarkingThrees index factor num)
  assume "runner_inv S j w"
  with MarkingThrees show ?thesis by (simp add: sieved_clear)
next
  case (MarkingPairA index factor num)
  assume "runner_inv S j w"
  with MarkingPairA show ?thesis by (auto simp: progress_clear sieved_clear)
next
  case (CheckPairB index factor)
  assume "runner_inv S j w"
  with CheckPairB show ?thesis
    using sieved_clear [of S "nat (6 * index - 1)" "Size S" k] by (auto simp: progress_clear)
next
  case (MarkingPairB index factor num)
  assume "runner_inv S j w"
  with MarkingPairB show ?thesis
    using sieved_clear [of S "nat (6 * index - 1)" "Size S" k] by (auto simp: progress_clear sieved_clear)
next
  case Done
  assume "runner_inv S j w"
  with Done show ?thesis using progress_clear [of S j _ k] by auto
next
  case Fault
  assume "runner_inv S j w"
  with Fault show ?thesis by simp
qed

lemma store_inv_clear:
  assumes "store_inv S" and "\<not> is_prime (2 * k + 1)"
  shows "store_inv (S\<lparr>Bits := (Bits S)[k := False]\<rparr>)"
proof -
  have "(Bits S)[k := False] ! i" if "i < length (Bits S)" "is_prime (2 * i + 1)" for i
  proof -
    from that assms(2) have "i \<noteq> k" by auto
    moreover from assms(1) that have "Bits S ! i" by (simp add: store_inv_def)
    ultimately show ?thesis by simp
  qed
  moreover have "\<not> (Bits S)[k := False] ! 0"
    using assms(1) by (cases "k < length (Bits S)"; cases "k = 0") (simp_all add: store_inv_def)
  ultimately show ?thesis using assms(1) by (simp add: store_inv_def)
qed

lemma odd_cell_in_bounds:
  "store_inv S \<Longrightarrow> odd num \<Longrightarrow> num < Size S \<Longrightarrow> num div 2 < length (Bits S)"
  unfolding store_inv_def by presburger

lemma multiple_not_prime:
  assumes "2 \<le> f" and "f dvd num" and "f * f \<le> num"
  shows "\<not> is_prime num"
proof -
  from assms(2) obtain c where c: "num = f * c" by (auto elim: dvdE)
  with assms have "f * f \<le> f * c" by simp
  with assms(1) have "f \<le> c" by simp
  with assms(1) have "2 \<le> c" by simp
  with assms(1) c show ?thesis by (simp add: not_prime_mult)
qed

text \<open>One pass of a marking loop: the cell of \<open>num\<close> is cleared and \<open>num\<close> grows by \<open>2 * f\<close>.\<close>

lemma mark_next:
  assumes inv: "store_inv S" and f: "odd f"
    and num: "odd num" "f dvd num" "num < Size S"
    and sv: "sieved S f num"
  shows "sieved (S\<lparr>Bits := (Bits S)[num div 2 := False]\<rparr>) f (num + 2 * f)"
  unfolding sieved_def
proof (intro allI impI)
  let ?S' = "S\<lparr>Bits := (Bits S)[num div 2 := False]\<rparr>"
  fix m
  assume m: "m < num + 2 * f \<and> m < Size ?S' \<and> odd m \<and> f dvd m \<and> f * f \<le> m"
  show "struck ?S' m"
  proof (cases "m < num")
    case True
    with m sv have "struck S m" by (simp add: sieved_def)
    then show ?thesis by (rule struck_clear)
  next
    case False
    from m num obtain a b where ab: "m = f * a" "num = f * b" by (auto elim!: dvdE)
    from f have fpos: "0 < f" by (cases f) auto
    from False ab fpos have "b \<le> a" by simp
    moreover have "a < b + 2"
    proof -
      from m ab have "f * a < f * b + 2 * f" by simp
      also have "\<dots> = f * (b + 2)" by (simp add: algebra_simps)
      finally show ?thesis using fpos by (simp only: mult_less_cancel1)
    qed
    moreover have "a \<noteq> b + 1"
    proof
      assume "a = b + 1"
      with ab have "m = num + f" by simp
      with num(1) f m show False by simp
    qed
    ultimately have "a = b" by simp
    with ab have "m = num" by simp
    moreover from inv num have "num div 2 < length (Bits S)" by (simp add: odd_cell_in_bounds)
    ultimately show ?thesis by (simp add: struck_clear_self)
  qed
qed


section \<open>One step of a runner keeps the invariant\<close>

declare runner_inv.simps [simp del]

lemma runnerStep_store:
  "fst (runnerStep S w) = S \<or>
   (\<exists>k. fst (runnerStep S w) = S\<lparr>Bits := (Bits S)[k := False]\<rparr>)"
  by (cases w) (auto simp: clearBit_def split: option.splits bool.splits)

lemma sieved_empty: "b \<le> f * f \<Longrightarrow> sieved S f b"
  by (auto simp: sieved_def)

lemma sieved_full: "sieved S f b \<Longrightarrow> Size S \<le> b \<Longrightarrow> sieved S f (Size S)"
  by (auto simp: sieved_def)

lemma factor_in_bounds:
  assumes inv: "store_inv S" and f: "5 \<le> f" "f \<le> int (isqrt (Size S)) + 2"
  shows "0 \<le> f div 2 \<and> nat (f div 2) < length (Bits S)"
proof -
  define q where "q = isqrt (Size S)"
  from f have q3: "3 \<le> q" by (simp add: q_def)
  have "q * q \<le> Size S" using isqrt_bounds [of "Size S"] by (simp add: q_def)
  moreover from q3 have "3 * q \<le> q * q" by simp
  ultimately have "q + 6 \<le> Size S" using q3 by linarith
  with f have "f + 4 \<le> int (Size S)" by (simp add: q_def)
  with f(1) have "0 \<le> f div 2 \<and> nat (f div 2) < Size S div 2" by presburger
  with inv show ?thesis by (simp add: store_inv_def)
qed

lemma read_in_bounds:
  assumes inv: "store_inv S" and f: "5 \<le> f" "f \<le> int (isqrt (Size S)) + 2"
  shows "readBit S f = Some (Bits S ! nat (f div 2))"
  using factor_in_bounds [OF assms] by (simp add: readBit_def)

lemma false_cell_not_prime:
  assumes inv: "store_inv S" and f: "5 \<le> f" "f \<le> int (isqrt (Size S)) + 2" "odd f"
    and cell: "\<not> Bits S ! nat (f div 2)"
  shows "\<not> is_prime (nat f)"
proof
  assume p: "is_prime (nat f)"
  from factor_in_bounds [OF inv f(1,2)] have "nat (f div 2) < length (Bits S)"
    by simp
  moreover have "2 * nat (f div 2) + 1 = nat f"
  proof -
    from f(1) have "0 \<le> f div 2" by simp
    moreover from f(3) have "f = 2 * (f div 2) + 1" by presburger
    ultimately show ?thesis by (simp add: nat_eq_iff)
  qed
  ultimately have "Bits S ! nat (f div 2)" using inv p by (simp add: store_inv_def)
  with cell show False by simp
qed

lemma same_residue:
  fixes a k t :: nat
  assumes "a \<le> k" and "k < a + t" and "k mod t = a mod t"
  shows "k = a"
proof -
  from assms(1,3) have "t dvd k - a" by (simp add: mod_eq_dvd_iff_nat)
  moreover from assms(1,2) have "k - a < t" by simp
  ultimately have "k - a = 0" using nat_dvd_not_less by blast
  with assms(1) show ?thesis by simp
qed

lemma progressI:
  "\<lbrakk>0 \<le> index; nat index mod Threads S = j;
    \<And>k. \<lbrakk>1 \<le> k; k < nat index; k mod Threads S = j\<rbrakk> \<Longrightarrow> handled S k;
    \<lbrakk>0 < index; j = 0\<rbrakk> \<Longrightarrow> sieved S 3 (Size S)\<rbrakk>
   \<Longrightarrow> progress S j index"
  unfolding progress_def by blast

lemma progress_nonneg: "progress S j index \<Longrightarrow> 0 \<le> index"
  unfolding progress_def by blast

lemma progress_mod: "progress S j index \<Longrightarrow> nat index mod Threads S = j"
  unfolding progress_def by blast

lemma progress_handled:
  "progress S j index \<Longrightarrow> 1 \<le> k \<Longrightarrow> k < nat index \<Longrightarrow> k mod Threads S = j \<Longrightarrow> handled S k"
  unfolding progress_def by blast

lemma progress_three: "progress S 0 index \<Longrightarrow> 0 < index \<Longrightarrow> sieved S 3 (Size S)"
  unfolding progress_def by blast

lemma progress_advance:
  assumes p: "progress S j index" and i: "1 \<le> index" and h: "handled S (nat index)"
  shows "progress S j (index + int (Threads S))"
proof (rule progressI)
  from i show "0 \<le> index + int (Threads S)" by simp
  from i have n: "nat (index + int (Threads S)) = nat index + Threads S" by linarith
  have "(nat index + Threads S) mod Threads S = nat index mod Threads S" by simp
  with progress_mod [OF p] show "nat (index + int (Threads S)) mod Threads S = j"
    by (simp only: n)
  show "sieved S 3 (Size S)" if "j = 0"
    using p i that by (intro progress_three [of S index]) simp_all
  fix k
  assume k: "1 \<le> k" "k < nat (index + int (Threads S))" "k mod Threads S = j"
  show "handled S k"
  proof (cases "k < nat index")
    case True
    with p k(1,3) show ?thesis by (intro progress_handled [of S j index k])
  next
    case False
    then have 1: "nat index \<le> k" by simp
    from k(2) have 2: "k < nat index + Threads S" by (simp only: n)
    from k(3) progress_mod [OF p] have 3: "k mod Threads S = nat index mod Threads S" by simp
    from same_residue [OF 1 2 3] h show ?thesis by simp
  qed
qed

lemma progress_leave_zero:
  assumes s: "sieved S 3 (Size S)"
  shows "progress S 0 (0 + int (Threads S))"
proof (rule progressI)
  show "0 \<le> 0 + int (Threads S)" by simp
  show "nat (0 + int (Threads S)) mod Threads S = 0" by simp
  from s show "sieved S 3 (Size S)" .
  fix k
  assume k: "1 \<le> k" "k < nat (0 + int (Threads S))" "k mod Threads S = 0"
  from k(2) have "k < Threads S" by simp
  then have "k mod Threads S = k" by (rule mod_less)
  with k(1,3) show "handled S k" by simp
qed

lemma runner_inv_MarkingPairA:
  "\<lbrakk>progress S j index; 1 \<le> index; factor = 6 * index - 1;
    factor \<le> int (isqrt (Size S)); odd num; nat factor dvd num;
    nat factor * nat factor \<le> num; sieved S (nat factor) num\<rbrakk>
   \<Longrightarrow> runner_inv S j (MarkingPairA index factor num)"
  by (simp add: runner_inv.simps)

lemma runner_inv_CheckPairB:
  "\<lbrakk>progress S j index; 1 \<le> index; factor = 6 * index + 1;
    6 * index - 1 \<le> int (isqrt (Size S));
    is_prime (nat (6 * index - 1)) \<longrightarrow> sieved S (nat (6 * index - 1)) (Size S)\<rbrakk>
   \<Longrightarrow> runner_inv S j (CheckPairB index factor)"
  by (simp add: runner_inv.simps)

lemma runner_inv_MarkingPairB:
  "\<lbrakk>progress S j index; 1 \<le> index; factor = 6 * index + 1;
    6 * index - 1 \<le> int (isqrt (Size S));
    is_prime (nat (6 * index - 1)) \<longrightarrow> sieved S (nat (6 * index - 1)) (Size S);
    odd num; nat factor dvd num;
    nat factor * nat factor \<le> num; sieved S (nat factor) num\<rbrakk>
   \<Longrightarrow> runner_inv S j (MarkingPairB index factor num)"
  by (simp add: runner_inv.simps)

lemma square_start:
  assumes "0 \<le> f" and "odd f"
  shows "odd (nat (f * f))" and "nat f dvd nat (f * f)" and "nat f * nat f \<le> nat (f * f)"
    and "sieved S (nat f) (nat (f * f))"
proof -
  from assms(1) have eq: "nat (f * f) = nat f * nat f" by (simp add: nat_mult_distrib)
  from assms have "odd (nat f)" by (simp add: even_nat_iff)
  then show "odd (nat (f * f))" by (simp add: eq)
  show "nat f dvd nat (f * f)" by (simp add: eq)
  show "nat f * nat f \<le> nat (f * f)" by (simp add: eq)
  show "sieved S (nat f) (nat (f * f))" by (rule sieved_empty) (simp add: eq)
qed

lemma step_Advancing:
  assumes inv: "store_inv S" and w: "runner_inv S j (Advancing index factor)"
  shows "fst (runnerStep S (Advancing index factor)) = S \<and>
         runner_inv S j (snd (runnerStep S (Advancing index factor)))"
proof -
  from w have p: "progress S j index" and f: "factor = 6 * index - 1"
    by (simp_all add: runner_inv.simps)
  show ?thesis
  proof (cases "factor \<le> int (isqrt (Size S))")
    case False
    with p f have "runner_inv S j Done" by (auto simp: runner_inv.simps)
    with False show ?thesis by simp
  next
    case q: True
    show ?thesis
    proof (cases "index = 0")
      case True
      with True q show ?thesis by (simp add: sieved_empty runner_inv.simps progress_mod [OF p, symmetric])
    next
      case False
      with progress_nonneg [OF p] have i: "1 \<le> index" by simp
      from i f have f5: "5 \<le> factor" by simp
      from q have f2: "factor \<le> int (isqrt (Size S)) + 2" by simp
      from f have fo: "odd factor" by simp
      from f5 have f0: "0 \<le> factor" by simp
      note rd = read_in_bounds [OF inv f5 f2]
      show ?thesis
      proof (cases "Bits S ! nat (factor div 2)")
        case True
        have "runner_inv S j (MarkingPairA index factor (nat (factor * factor)))"
          using p i f q square_start [OF f0 fo] by (rule runner_inv_MarkingPairA)
        moreover from True False q rd
        have "runnerStep S (Advancing index factor) = (S, MarkingPairA index factor (nat (factor * factor)))"
          by simp
        ultimately show ?thesis by simp
      next
        case c: False
        from false_cell_not_prime [OF inv f5 f2 fo c] f
        have "is_prime (nat (6 * index - 1)) \<longrightarrow> sieved S (nat (6 * index - 1)) (Size S)" by simp
        moreover from f have "factor + 2 = 6 * index + 1" by simp
        moreover from q f have "6 * index - 1 \<le> int (isqrt (Size S))" by simp
        ultimately have "runner_inv S j (CheckPairB index (factor + 2))"
          using p i by (intro runner_inv_CheckPairB)
        moreover from c False q rd
        have "runnerStep S (Advancing index factor) = (S, CheckPairB index (factor + 2))"
          by simp
        ultimately show ?thesis by simp
      qed
    qed
  qed
qed


lemma mark_cell:
  assumes inv: "store_inv S" and f: "odd f" "3 \<le> f"
    and num: "odd num" "f dvd num" "f * f \<le> num" "num < Size S"
    and sv: "sieved S f num"
  shows "clearBit S (num div 2) w = (S\<lparr>Bits := (Bits S)[num div 2 := False]\<rparr>, w)"
    and "store_inv (S\<lparr>Bits := (Bits S)[num div 2 := False]\<rparr>)"
    and "sieved (S\<lparr>Bits := (Bits S)[num div 2 := False]\<rparr>) f (num + 2 * f)"
proof -
  from inv num(1,4) have "num div 2 < length (Bits S)" by (rule odd_cell_in_bounds)
  then show "clearBit S (num div 2) w = (S\<lparr>Bits := (Bits S)[num div 2 := False]\<rparr>, w)"
    by (simp add: clearBit_def)
  from f(2) have "2 \<le> f" by simp
  then have "\<not> is_prime num" using num(2,3) by (rule multiple_not_prime)
  moreover from num(1) have "2 * (num div 2) + 1 = num" by presburger
  ultimately have "\<not> is_prime (2 * (num div 2) + 1)" by simp
  with inv show "store_inv (S\<lparr>Bits := (Bits S)[num div 2 := False]\<rparr>)"
    by (rule store_inv_clear)
  from inv f(1) num(1,2,4) sv
  show "sieved (S\<lparr>Bits := (Bits S)[num div 2 := False]\<rparr>) f (num + 2 * f)"
    by (rule mark_next)
qed

lemma step_MarkingThrees:
  assumes inv: "store_inv S" and w: "runner_inv S j (MarkingThrees index factor num)"
  shows "store_inv (fst (runnerStep S (MarkingThrees index factor num))) \<and>
         runner_inv (fst (runnerStep S (MarkingThrees index factor num))) j
           (snd (runnerStep S (MarkingThrees index factor num)))"
proof -
  from w have i: "index = 0" "j = 0" and num: "odd num" "3 dvd num" "3 * 3 \<le> num"
    and sv: "sieved S 3 num"
    by (simp_all add: runner_inv.simps)
  show ?thesis
  proof (cases "num < Size S")
    case True
    let ?S' = "S\<lparr>Bits := (Bits S)[num div 2 := False]\<rparr>"
    have o3: "odd (3::nat)" "(3::nat) \<le> 3" by simp_all
    note m = mark_cell [OF inv o3 num True sv]
    from True m(1) [of "MarkingThrees index factor (num + 6)"]
    have st: "runnerStep S (MarkingThrees index factor num) = (?S', MarkingThrees index factor (num + 6))"
      by simp
    from m(3) have "sieved ?S' 3 (num + 6)" by simp
    with i num have "runner_inv ?S' j (MarkingThrees index factor (num + 6))"
      by (simp add: runner_inv.simps)
    with m(2) st show ?thesis by simp
  next
    case False
    then have st: "runnerStep S (MarkingThrees index factor num) = (S, advance S index)" by simp
    from False have "Size S \<le> num" by simp
    with sv have "sieved S 3 (Size S)" by (rule sieved_full)
    then have "progress S 0 (0 + int (Threads S))" by (rule progress_leave_zero)
    with i have "runner_inv S j (advance S index)"
      by (simp add: advance_def runner_inv.simps)
    with inv st show ?thesis by simp
  qed
qed

lemma nat_factors:
  assumes "1 \<le> index"
  shows "nat (6 * index - 1) = 6 * nat index - 1" and "nat (6 * index + 1) = 6 * nat index + 1"
  using assms by linarith+

lemma runner_inv_advance:
  assumes p: "progress S j index" and i: "1 \<le> index"
    and a: "is_prime (nat (6 * index - 1)) \<longrightarrow> sieved S (nat (6 * index - 1)) (Size S)"
    and b: "is_prime (nat (6 * index + 1)) \<longrightarrow> sieved S (nat (6 * index + 1)) (Size S)"
  shows "runner_inv S j (advance S index)"
proof -
  from a b have "handled S (nat index)"
    by (simp only: handled_def nat_factors [OF i])
  with p i have "progress S j (index + int (Threads S))" by (rule progress_advance)
  then show ?thesis by (simp add: advance_def runner_inv.simps)
qed

lemma step_MarkingPairA:
  assumes inv: "store_inv S" and w: "runner_inv S j (MarkingPairA index factor num)"
  shows "store_inv (fst (runnerStep S (MarkingPairA index factor num))) \<and>
         runner_inv (fst (runnerStep S (MarkingPairA index factor num))) j
           (snd (runnerStep S (MarkingPairA index factor num)))"
proof -
  have p: "progress S j index" and i: "1 \<le> index" and f: "factor = 6 * index - 1"
    and q: "factor \<le> int (isqrt (Size S))"
    and num: "odd num" "nat factor dvd num" "nat factor * nat factor \<le> num"
    and sv: "sieved S (nat factor) num"
    using w unfolding runner_inv.simps by blast+
  from i f have fo: "odd (nat factor)" "3 \<le> nat factor" by (simp_all add: even_nat_iff)
  from i f have tw: "nat (2 * factor) = 2 * nat factor" by simp
  show ?thesis
  proof (cases "num < Size S")
    case True
    let ?S' = "S\<lparr>Bits := (Bits S)[num div 2 := False]\<rparr>"
    note m = mark_cell [OF inv fo num True sv]
    from True m(1) [of "MarkingPairA index factor (num + nat (2 * factor))"]
    have st: "runnerStep S (MarkingPairA index factor num) =
        (?S', MarkingPairA index factor (num + nat (2 * factor)))"
      by simp
    from p have "progress ?S' j index" by (rule progress_clear)
    moreover from q have "factor \<le> int (isqrt (Size ?S'))" by simp
    moreover from num(1) have "odd (num + nat (2 * factor))" by (simp add: tw)
    moreover from num(2) have "nat factor dvd num + nat (2 * factor)" by (simp add: tw)
    moreover from num(3) have "nat factor * nat factor \<le> num + nat (2 * factor)" by simp
    moreover from m(3) have "sieved ?S' (nat factor) (num + nat (2 * factor))" by (simp only: tw)
    ultimately have "runner_inv ?S' j (MarkingPairA index factor (num + nat (2 * factor)))"
      using i f by (intro runner_inv_MarkingPairA)
    with m(2) st show ?thesis by simp
  next
    case False
    then have st: "runnerStep S (MarkingPairA index factor num) = (S, CheckPairB index (factor + 2))"
      by simp
    from False have "Size S \<le> num" by simp
    with sv have "sieved S (nat factor) (Size S)" by (rule sieved_full)
    with f have "is_prime (nat (6 * index - 1)) \<longrightarrow> sieved S (nat (6 * index - 1)) (Size S)" by simp
    moreover from f have "factor + 2 = 6 * index + 1" by simp
    moreover from q f have "6 * index - 1 \<le> int (isqrt (Size S))" by simp
    ultimately have "runner_inv S j (CheckPairB index (factor + 2))"
      using p i by (intro runner_inv_CheckPairB)
    with inv st show ?thesis by simp
  qed
qed


lemma step_CheckPairB:
  assumes inv: "store_inv S" and w: "runner_inv S j (CheckPairB index factor)"
  shows "fst (runnerStep S (CheckPairB index factor)) = S \<and>
         runner_inv S j (snd (runnerStep S (CheckPairB index factor)))"
proof -
  have p: "progress S j index" and i: "1 \<le> index" and f: "factor = 6 * index + 1"
    and q: "6 * index - 1 \<le> int (isqrt (Size S))"
    and a: "is_prime (nat (6 * index - 1)) \<longrightarrow> sieved S (nat (6 * index - 1)) (Size S)"
    using w unfolding runner_inv.simps by blast+
  from i f have f5: "5 \<le> factor" by simp
  from q f have f2: "factor \<le> int (isqrt (Size S)) + 2" by simp
  from f have fo: "odd factor" by simp
  from f5 have f0: "0 \<le> factor" by simp
  note rd = read_in_bounds [OF inv f5 f2]
  show ?thesis
  proof (cases "Bits S ! nat (factor div 2)")
    case True
    have "runner_inv S j (MarkingPairB index factor (nat (factor * factor)))"
      using p i f q a square_start [OF f0 fo] by (rule runner_inv_MarkingPairB)
    moreover from True rd
    have "runnerStep S (CheckPairB index factor) = (S, MarkingPairB index factor (nat (factor * factor)))"
      by simp
    ultimately show ?thesis by simp
  next
    case c: False
    from false_cell_not_prime [OF inv f5 f2 fo c] f
    have b: "is_prime (nat (6 * index + 1)) \<longrightarrow> sieved S (nat (6 * index + 1)) (Size S)" by simp
    from p i a b have "runner_inv S j (advance S index)" by (rule runner_inv_advance)
    moreover from c rd
    have "runnerStep S (CheckPairB index factor) = (S, advance S index)"
      by simp
    ultimately show ?thesis by simp
  qed
qed

lemma step_MarkingPairB:
  assumes inv: "store_inv S" and w: "runner_inv S j (MarkingPairB index factor num)"
  shows "store_inv (fst (runnerStep S (MarkingPairB index factor num))) \<and>
         runner_inv (fst (runnerStep S (MarkingPairB index factor num))) j
           (snd (runnerStep S (MarkingPairB index factor num)))"
proof -
  have p: "progress S j index" and i: "1 \<le> index" and f: "factor = 6 * index + 1"
    and q: "6 * index - 1 \<le> int (isqrt (Size S))"
    and a: "is_prime (nat (6 * index - 1)) \<longrightarrow> sieved S (nat (6 * index - 1)) (Size S)"
    and num: "odd num" "nat factor dvd num" "nat factor * nat factor \<le> num"
    and sv: "sieved S (nat factor) num"
    using w unfolding runner_inv.simps by blast+
  from i f have fo: "odd (nat factor)" "3 \<le> nat factor" by (simp_all add: even_nat_iff)
  from i f have tw: "nat (2 * factor) = 2 * nat factor" by simp
  show ?thesis
  proof (cases "num < Size S")
    case True
    let ?S' = "S\<lparr>Bits := (Bits S)[num div 2 := False]\<rparr>"
    note m = mark_cell [OF inv fo num True sv]
    from True m(1) [of "MarkingPairB index factor (num + nat (2 * factor))"]
    have st: "runnerStep S (MarkingPairB index factor num) =
        (?S', MarkingPairB index factor (num + nat (2 * factor)))"
      by simp
    from p have "progress ?S' j index" by (rule progress_clear)
    moreover from q have "6 * index - 1 \<le> int (isqrt (Size ?S'))" by simp
    moreover from a have "is_prime (nat (6 * index - 1)) \<longrightarrow> sieved ?S' (nat (6 * index - 1)) (Size ?S')"
      using sieved_clear [of S "nat (6 * index - 1)" "Size S" "num div 2"] by simp
    moreover from num(1) have "odd (num + nat (2 * factor))" by (simp add: tw)
    moreover from num(2) have "nat factor dvd num + nat (2 * factor)" by (simp add: tw)
    moreover from num(3) have "nat factor * nat factor \<le> num + nat (2 * factor)" by simp
    moreover from m(3) have "sieved ?S' (nat factor) (num + nat (2 * factor))" by (simp only: tw)
    ultimately have "runner_inv ?S' j (MarkingPairB index factor (num + nat (2 * factor)))"
      using i f by (intro runner_inv_MarkingPairB)
    with m(2) st show ?thesis by simp
  next
    case False
    then have st: "runnerStep S (MarkingPairB index factor num) = (S, advance S index)"
      by simp
    from False have "Size S \<le> num" by simp
    with sv have "sieved S (nat factor) (Size S)" by (rule sieved_full)
    with f have b: "is_prime (nat (6 * index + 1)) \<longrightarrow> sieved S (nat (6 * index + 1)) (Size S)" by simp
    from p i a b have "runner_inv S j (advance S index)" by (rule runner_inv_advance)
    with inv st show ?thesis by simp
  qed
qed

lemma runnerStep_inv:
  assumes inv: "store_inv S" and w: "runner_inv S j w"
  shows "store_inv (fst (runnerStep S w)) \<and> runner_inv (fst (runnerStep S w)) j (snd (runnerStep S w))"
proof (cases w)
  case (Advancing index factor)
  with step_Advancing [OF inv, of j index factor] w inv show ?thesis by simp
next
  case (MarkingThrees index factor num)
  with step_MarkingThrees [OF inv, of j index factor num] w show ?thesis by simp
next
  case (MarkingPairA index factor num)
  with step_MarkingPairA [OF inv, of j index factor num] w show ?thesis by simp
next
  case (CheckPairB index factor)
  with step_CheckPairB [OF inv, of j index factor] w inv show ?thesis by simp
next
  case (MarkingPairB index factor num)
  with step_MarkingPairB [OF inv, of j index factor num] w show ?thesis by simp
next
  case Done
  with inv w show ?thesis by simp
next
  case Fault
  with w show ?thesis by (simp add: runner_inv.simps)
qed

lemma runnerStep_others:
  assumes "runner_inv S i v"
  shows "runner_inv (fst (runnerStep S w)) i v"
proof -
  from runnerStep_store [of S w] consider "fst (runnerStep S w) = S"
    | k where "fst (runnerStep S w) = S\<lparr>Bits := (Bits S)[k := False]\<rparr>" by blast
  then show ?thesis
  proof cases
    case 1
    with assms show ?thesis by simp
  next
    case 2
    with runner_inv_clear [OF assms, of k] show ?thesis by simp
  qed
qed

lemma threadStep_inv:
  assumes "sieve_inv st"
  shows "sieve_inv (threadStep i st)"
proof (cases st)
  case (Pair S ws)
  with assms have inv: "store_inv S" and len: "length ws = Threads S"
    and all: "\<And>j. j < length ws \<Longrightarrow> runner_inv S j (ws ! j)"
    by (simp_all add: sieve_inv_def)
  show ?thesis
  proof (cases "i < length ws")
    case False
    with Pair assms show ?thesis by (simp add: threadStep_def)
  next
    case True
    define S' where "S' = fst (runnerStep S (ws ! i))"
    define w' where "w' = snd (runnerStep S (ws ! i))"
    from True Pair have st: "threadStep i st = (S', ws[i := w'])"
      by (simp add: threadStep_def S'_def w'_def split: prod.splits)
    from runnerStep_inv [OF inv all [OF True]] have 1: "store_inv S'" and 2: "runner_inv S' i w'"
      by (simp_all add: S'_def w'_def)
    from runnerStep_fields [of S "ws ! i" S' w'] have thr: "Threads S' = Threads S"
      by (simp add: S'_def w'_def)
    have "runner_inv S' j (ws[i := w'] ! j)" if j: "j < length ws" for j
    proof (cases "j = i")
      case True
      with 2 j show ?thesis by simp
    next
      case False
      from all [OF j] have "runner_inv S' j (ws ! j)" unfolding S'_def by (rule runnerStep_others)
      with False show ?thesis by simp
    qed
    with 1 len thr show ?thesis by (simp add: st sieve_inv_def)
  qed
qed

lemma exec_inv: "sieve_inv st \<Longrightarrow> sieve_inv (exec sched st)"
proof (induction sched arbitrary: st)
  case Nil
  then show ?case by (simp add: exec_Nil)
next
  case (Cons i sched)
  from Cons.prems have "sieve_inv (threadStep i st)" by (rule threadStep_inv)
  then have "sieve_inv (exec sched (threadStep i st))" by (rule Cons.IH)
  then show ?case by (simp add: exec_Cons)
qed


section \<open>The invariant at the start and at the join\<close>

lemma store_inv_new:
  assumes "new_prime_sieve limit t = Inr S0" and "1 \<le> t"
  shows "store_inv S0"
proof -
  from assms(1) have l: "2 \<le> limit"
    and S0: "S0 = \<lparr>Bits = (replicate (limit div 2) True)[0 := False], Size = limit, Threads = t\<rparr>"
    by (simp_all add: new_prime_sieve_Inr)
  from l have pos: "0 < limit div 2" by presburger
  have "(replicate (limit div 2) True)[0 := False] ! i" if "i < limit div 2" "is_prime (2 * i + 1)" for i
  proof -
    from that(2) have "i \<noteq> 0" by (auto simp: is_prime_def)
    with that(1) show ?thesis by simp
  qed
  with l pos assms(2) show ?thesis by (simp add: store_inv_def S0)
qed

lemma runner_inv_spawn:
  assumes "j < Threads S"
  shows "runner_inv S j (Advancing (int j) (6 * int j - 1))"
proof -
  have "progress S j (int j)"
  proof (rule progressI)
    show "0 \<le> int j" by simp
    from assms show "nat (int j) mod Threads S = j" by simp
    show "sieved S 3 (Size S)" if "0 < int j" "j = 0" using that by simp
    fix k
    assume k: "1 \<le> k" "k < nat (int j)" "k mod Threads S = j"
    from k(2) assms have "k mod Threads S = k" by simp
    with k(2,3) show "handled S k" by simp
  qed
  then show ?thesis by (simp add: runner_inv.simps)
qed

lemma sieve_inv_start:
  assumes "new_prime_sieve limit t = Inr S0" and "1 \<le> t"
  shows "sieve_inv (S0, spawn S0)"
proof -
  have "runner_inv S0 j (spawn S0 ! j)" if "j < Threads S0" for j
    using that runner_inv_spawn [OF that] by (simp add: spawn_def)
  with store_inv_new [OF assms] show ?thesis by (simp add: sieve_inv_def spawn_def)
qed

lemma sieve_inv_run:
  assumes "new_prime_sieve limit t = Inr S0" and "1 \<le> t"
  shows "sieve_inv (runSieve sched S0)"
  unfolding runSieve_def using sieve_inv_start [OF assms] by (rule exec_inv)

lemma Done_progress:
  assumes "runner_inv S j Done"
  obtains index where "progress S j index" and "int (isqrt (Size S)) < 6 * index - 1"
  using assms unfolding runner_inv.simps by blast

lemma sievedD:
  "sieved S f b \<Longrightarrow> m < b \<Longrightarrow> m < Size S \<Longrightarrow> odd m \<Longrightarrow> f dvd m \<Longrightarrow> f * f \<le> m \<Longrightarrow> struck S m"
  unfolding sieved_def by blast

lemma composite_struck:
  assumes inv: "sieve_inv (S, ws)" and fin: "joined (S, ws)"
    and m: "odd m" "1 < m" "m < Size S" "\<not> is_prime m"
  shows "struck S m"
proof -
  from inv have st: "store_inv S" and len: "length ws = Threads S"
    and all: "\<And>j. j < Threads S \<Longrightarrow> runner_inv S j (ws ! j)"
    by (simp_all add: sieve_inv_def)
  from st have t: "1 \<le> Threads S" by (simp add: store_inv_def)
  from fin len have dn: "\<And>j. j < Threads S \<Longrightarrow> ws ! j = Done"
    by (simp add: joined_def list_all_length)
  from prime_factor_le_sqrt [OF m(2,4)] obtain p where
    p: "is_prime p" "p dvd m" "p * p \<le> m" by blast
  from p(3) m(3) have "p * p \<le> Size S" by simp
  then have pq: "p \<le> isqrt (Size S)" by (rule isqrt_ge)
  from p(2) m(1) have po: "odd p" by auto
  from is_prime_ge2 [OF p(1)] po have p3: "3 \<le> p" by (cases "p = 2") auto
  show ?thesis
  proof (cases "p = 3")
    case True
    from t have "runner_inv S 0 Done" using all [of 0] dn [of 0] by simp
    then obtain index where ix: "progress S 0 index" "int (isqrt (Size S)) < 6 * index - 1"
      by (rule Done_progress)
    from ix(2) have "0 < index" by simp
    with ix(1) have "sieved S 3 (Size S)" by (rule progress_three)
    with m p True show ?thesis by (intro sievedD [of S 3 "Size S" m]) simp_all
  next
    case False
    with p3 po have p5: "5 \<le> p" by (cases "p = 4") auto
    define k where "k = (p + 1) div 6"
    from prime_mod6 [OF p(1) p5] have pk: "p = 6 * k - 1 \<or> p = 6 * k + 1"
      unfolding k_def by presburger
    from p5 have k1: "1 \<le> k" unfolding k_def by simp
    define j where "j = k mod Threads S"
    from t have jt: "j < Threads S" by (simp add: j_def)
    then have "runner_inv S j Done" using all [of j] dn [of j] by simp
    then obtain index where ix: "progress S j index" "int (isqrt (Size S)) < 6 * index - 1"
      by (rule Done_progress)
    from pk pq ix(2) have "k < nat index" by linarith
    with ix(1) k1 have "handled S k" by (intro progress_handled [of S j index k]) (simp_all add: j_def)
    with pk p(1) have "sieved S p (Size S)" by (auto simp: handled_def)
    with m p show ?thesis by (intro sievedD [of S p "Size S" m]) simp_all
  qed
qed

lemma joined_cells:
  assumes inv: "sieve_inv (S, ws)" and fin: "joined (S, ws)" and i: "2 * i + 1 < Size S"
  shows "Bits S ! i = is_prime (2 * i + 1)"
proof (cases "is_prime (2 * i + 1)")
  case True
  from inv have st: "store_inv S" by (simp add: sieve_inv_def)
  then have "length (Bits S) = Size S div 2" by (simp add: store_inv_def)
  with i have "i < length (Bits S)" by presburger
  with st True show ?thesis by (simp add: store_inv_def)
next
  case False
  show ?thesis
  proof (cases "i = 0")
    case True
    with inv False show ?thesis by (simp add: sieve_inv_def store_inv_def)
  next
    case i0: False
    then have "1 < 2 * i + 1" by simp
    with inv fin i False have "struck S (2 * i + 1)"
      by (intro composite_struck [of S ws]) simp_all
    with False show ?thesis by (simp add: struck_def)
  qed
qed


section \<open>Every run comes to its join\<close>

lemma steps_left_Size: "Size S' = Size S \<Longrightarrow> steps_left S' w = steps_left S w"
  by (cases w) (simp_all add: rounds_left_def round_weight_def)

lemma rounds_left_advance:
  assumes "1 \<le> Threads S"
  shows "rounds_left S (index + int (Threads S)) \<le> rounds_left S index - 1"
proof -
  define a where "a = int (isqrt (Size S)) + 3 - 6 * index"
  have "nat (a - 6 * int (Threads S)) \<le> nat a - 1"
  proof (cases "a \<le> 0")
    case True
    then show ?thesis by simp
  next
    case False
    then have "nat a - 1 = nat (a - 1)" by simp
    moreover from assms have "a - 6 * int (Threads S) \<le> a - 1" by simp
    ultimately show ?thesis by simp
  qed
  moreover have "int (isqrt (Size S)) + 3 - 6 * (index + int (Threads S)) = a - 6 * int (Threads S)"
    by (simp add: a_def)
  ultimately show ?thesis by (simp add: rounds_left_def a_def)
qed

lemma rounds_left_pos:
  "6 * index - 1 \<le> int (isqrt (Size S)) \<Longrightarrow> 1 \<le> rounds_left S index"
  unfolding rounds_left_def by linarith

lemma mult_pred: "1 \<le> (r::nat) \<Longrightarrow> r * w = (r - 1) * w + w"
  by (cases r) simp_all

lemma steps_left_advance:
  assumes "1 \<le> Threads S"
  shows "steps_left S (advance S index) \<le> 1 + (rounds_left S index - 1) * round_weight S"
proof -
  from rounds_left_advance [OF assms, of index]
  have "rounds_left S (index + int (Threads S)) * round_weight S
        \<le> (rounds_left S index - 1) * round_weight S"
    by (rule mult_le_mono1)
  then show ?thesis by (simp add: advance_def)
qed

lemma steps_left_clearBit:
  "steps_left S (snd (clearBit S k w)) \<le> steps_left S w"
  by (simp add: clearBit_def)

lemma decrease_Advancing:
  assumes w: "runner_inv S j (Advancing index factor)"
  shows "steps_left S (snd (runnerStep S (Advancing index factor))) < steps_left S (Advancing index factor)"
proof (cases "factor \<le> int (isqrt (Size S))")
  case False
  then show ?thesis by simp
next
  case True
  from w have "factor = 6 * index - 1" unfolding runner_inv.simps by blast
  with True have "1 \<le> rounds_left S index" by (intro rounds_left_pos) simp
  then have e: "rounds_left S index * round_weight S
      = (rounds_left S index - 1) * round_weight S + round_weight S"
    by (rule mult_pred)
  from True show ?thesis
    by (simp add: e split: option.splits bool.splits) (auto simp: round_weight_def)
qed

lemma decrease_Marking:
  assumes "0 < d"
  shows "c + (Size S - (num + d)) < c + (Size S - num) \<or> \<not> num < Size S"
  using assms by linarith

lemma runnerStep_decreases:
  assumes inv: "store_inv S" and w: "runner_inv S j w" and nd: "w \<noteq> Done"
  shows "steps_left S (snd (runnerStep S w)) < steps_left S w"
proof (cases w)
  case (Advancing index factor)
  with w decrease_Advancing [of S j index factor] show ?thesis by simp
next
  case (MarkingThrees index factor num)
  from inv have t: "1 \<le> Threads S" by (simp add: store_inv_def)
  show ?thesis
  proof (cases "num < Size S")
    case True
    then have "steps_left S (MarkingThrees index factor (num + 6)) < steps_left S w"
      by (simp add: MarkingThrees)
    with True MarkingThrees show ?thesis by (simp add: clearBit_def)
  next
    case False
    with steps_left_advance [OF t, of index] MarkingThrees show ?thesis by simp
  qed
next
  case (MarkingPairA index factor num)
  from w have "1 \<le> index" "factor = 6 * index - 1"
    unfolding MarkingPairA runner_inv.simps by blast+
  then have d: "0 < nat (2 * factor)" by simp
  show ?thesis
  proof (cases "num < Size S")
    case True
    with d have "steps_left S (MarkingPairA index factor (num + nat (2 * factor))) < steps_left S w"
      by (simp add: MarkingPairA)
    with True MarkingPairA show ?thesis by (simp add: clearBit_def)
  next
    case False
    with MarkingPairA show ?thesis by simp
  qed
next
  case (CheckPairB index factor)
  from inv have t: "1 \<le> Threads S" by (simp add: store_inv_def)
  with steps_left_advance [OF t, of index] CheckPairB show ?thesis
    by (simp split: option.splits bool.splits) linarith
next
  case (MarkingPairB index factor num)
  from inv have t: "1 \<le> Threads S" by (simp add: store_inv_def)
  from w have "1 \<le> index" "factor = 6 * index + 1"
    unfolding MarkingPairB runner_inv.simps by blast+
  then have d: "0 < nat (2 * factor)" by simp
  show ?thesis
  proof (cases "num < Size S")
    case True
    with d have "steps_left S (MarkingPairB index factor (num + nat (2 * factor))) < steps_left S w"
      by (simp add: MarkingPairB)
    with True MarkingPairB show ?thesis by (simp add: clearBit_def)
  next
    case False
    with steps_left_advance [OF t, of index] MarkingPairB show ?thesis by simp
  qed
next
  case Done
  with nd show ?thesis by simp
next
  case Fault
  with w show ?thesis by (simp add: runner_inv.simps)
qed


lemma threadStep_decreases:
  assumes inv: "sieve_inv st" and i: "i < length (snd st)" and nd: "snd st ! i \<noteq> Done"
  shows "work_left (threadStep i st) < work_left st"
proof (cases st)
  case (Pair S ws)
  with inv have st: "store_inv S" and len: "length ws = Threads S"
    and all: "\<And>j. j < length ws \<Longrightarrow> runner_inv S j (ws ! j)"
    by (simp_all add: sieve_inv_def)
  from i Pair have i': "i < length ws" by simp
  define S' where "S' = fst (runnerStep S (ws ! i))"
  define w' where "w' = snd (runnerStep S (ws ! i))"
  from i' have step: "threadStep i (S, ws) = (S', ws[i := w'])"
    by (simp add: threadStep_def S'_def w'_def split: prod.splits)
  from runnerStep_fields [of S "ws ! i" S' w'] have "Size S' = Size S"
    by (simp add: S'_def w'_def)
  then have same: "steps_left S' = steps_left S" by (intro ext steps_left_Size)
  from nd Pair have "ws ! i \<noteq> Done" by simp
  with st all [OF i'] have less: "steps_left S w' < steps_left S (ws ! i)"
    unfolding w'_def by (rule runnerStep_decreases)
  let ?xs = "map (steps_left S) ws"
  from i' have "?xs ! i \<le> sum_list ?xs" by (intro member_le_sum_list) simp_all
  moreover from i' have "sum_list (?xs[i := steps_left S w']) = sum_list ?xs + steps_left S w' - ?xs ! i"
    by (simp add: sum_list_update)
  moreover from i' less have "steps_left S w' < ?xs ! i" by simp
  ultimately have "sum_list (?xs[i := steps_left S w']) < sum_list ?xs" by linarith
  then show ?thesis by (simp add: work_left_def step Pair same map_update)
qed

lemma run_completes:
  assumes "sieve_inv st"
  shows "\<exists>sched. joined (exec sched st)"
  using assms
proof (induction "work_left st" arbitrary: st rule: less_induct)
  case less
  show ?case
  proof (cases "joined st")
    case True
    then have "joined (exec [] st)" by (simp add: exec_Nil)
    then show ?thesis ..
  next
    case False
    then obtain i where i: "i < length (snd st)" "snd st ! i \<noteq> Done"
      by (auto simp: joined_def list_all_length)
    from less.prems i have "work_left (threadStep i st) < work_left st"
      by (rule threadStep_decreases)
    moreover from less.prems have "sieve_inv (threadStep i st)" by (rule threadStep_inv)
    ultimately obtain sched where "joined (exec sched (threadStep i st))"
      using less.hyps by blast
    then have "joined (exec (i # sched) st)" by (simp add: exec_Cons)
    then show ?thesis ..
  qed
qed

lemma runSieve_completes:
  assumes "new_prime_sieve limit t = Inr S0" and "1 \<le> t"
  shows "\<exists>sched. joined (runSieve sched S0)"
  unfolding runSieve_def using sieve_inv_start [OF assms] by (rule run_completes)

lemma runSieve_cells:
  assumes S0: "new_prime_sieve limit t = Inr S0" and t: "1 \<le> t"
    and fin: "joined (runSieve sched S0)" and i: "2 * i + 1 < limit"
  shows "Bits (fst (runSieve sched S0)) ! i = is_prime (2 * i + 1)"
proof -
  from runSieve_fields [OF S0, of sched] i
  have "2 * i + 1 < Size (fst (runSieve sched S0))" by simp
  with sieve_inv_run [OF S0 t, of sched] fin show ?thesis
    by (intro joined_cells [of _ "snd (runSieve sched S0)"]) simp_all
qed


section \<open>Counting\<close>

lemma is_prime_2: "is_prime 2"
  by (simp add: is_prime_def)

lemma even_prime: "is_prime p \<Longrightarrow> even p \<Longrightarrow> p = 2"
proof (rule ccontr)
  assume p: "is_prime p" "even p" "p \<noteq> 2"
  from is_prime_ge2 [OF p(1)] p(3) have "2 < p" by simp
  with is_prime_dvd [OF p(1), of 2] p(2) show False by simp
qed

lemma primes_below_split:
  assumes "3 \<le> limit"
  shows "{p. is_prime p \<and> p < limit} =
         insert 2 ((\<lambda>i. 2 * i + 1) ` {i. 1 \<le> i \<and> i < limit div 2 \<and> is_prime (2 * i + 1)})"
    (is "?L = insert 2 (?f ` ?A)")
proof (intro set_eqI iffI)
  fix p assume "p \<in> ?L"
  then have p: "is_prime p" "p < limit" by simp_all
  show "p \<in> insert 2 (?f ` ?A)"
  proof (cases "even p")
    case True
    with p(1) have "p = 2" by (rule even_prime)
    then show ?thesis by simp
  next
    case False
    with is_prime_ge2 [OF p(1)] have "1 \<le> p div 2" "2 * (p div 2) + 1 = p" by presburger+
    moreover from False p(2) have "p div 2 < limit div 2" by presburger
    ultimately have "p div 2 \<in> ?A" "p = ?f (p div 2)" using p(1) by simp_all
    then show ?thesis by blast
  qed
next
  fix p assume "p \<in> insert 2 (?f ` ?A)"
  then consider "p = 2" | i where "p = 2 * i + 1" "i < limit div 2" "is_prime (2 * i + 1)" by auto
  then show "p \<in> ?L"
  proof cases
    case 1
    with assms show ?thesis by (simp add: is_prime_2)
  next
    case 2
    from 2(2) have "2 * i + 1 < limit" by presburger
    with 2 show ?thesis by simp
  qed
qed

lemma card_primes_below:
  assumes "3 \<le> limit"
  shows "card {p. is_prime p \<and> p < limit} =
         1 + card {i. 1 \<le> i \<and> i < limit div 2 \<and> is_prime (2 * i + 1)}"
proof -
  let ?A = "{i. 1 \<le> i \<and> i < limit div 2 \<and> is_prime (2 * i + 1)}"
  let ?f = "\<lambda>i::nat. 2 * i + 1"
  have fin: "finite ?A" by simp
  have inj: "inj_on ?f ?A" by (simp add: inj_on_def)
  have "2 \<notin> ?f ` ?A"
  proof
    assume "2 \<in> ?f ` ?A"
    then obtain i :: nat where "2 = 2 * i + 1" by blast
    then show False by presburger
  qed
  with fin have "card (insert 2 (?f ` ?A)) = 1 + card (?f ` ?A)" by simp
  also from inj have "card (?f ` ?A) = card ?A" by (rule card_image)
  finally show ?thesis by (simp only: primes_below_split [OF assms])
qed

lemma length_filter_upt:
  "length (filter P [a..<b]) = card {i. a \<le> i \<and> i < b \<and> P i}"
proof -
  have "length (filter P [a..<b]) = card ({x. P x} \<inter> set [a..<b])"
    by (rule distinct_length_filter) simp
  also have "{x. P x} \<inter> set [a..<b] = {i. a \<le> i \<and> i < b \<and> P i}" by auto
  finally show ?thesis .
qed

lemma count_trial_division:
  assumes "3 \<le> limit"
  shows "length (filter is_prime [0..<limit]) =
         1 + length (filter (\<lambda>i. is_prime (2 * i + 1)) [1..<limit div 2])"
proof -
  have "{i. 0 \<le> i \<and> i < limit \<and> is_prime i} = {p. is_prime p \<and> p < limit}" by auto
  with card_primes_below [OF assms] show ?thesis by (simp only: length_filter_upt)
qed

lemma countPrimes_cells:
  assumes len: "length (Bits S) = Size S div 2" and l: "3 \<le> Size S"
    and cells: "\<And>i. 2 * i + 1 < Size S \<Longrightarrow> Bits S ! i = is_prime (2 * i + 1)"
  shows "countPrimes S = length (filter is_prime [0..<Size S])"
proof -
  have "Bits S = map (\<lambda>i. is_prime (2 * i + 1)) [0..<Size S div 2]"
  proof (rule nth_equalityI)
    show "length (Bits S) = length (map (\<lambda>i. is_prime (2 * i + 1)) [0..<Size S div 2])"
      by (simp add: len)
    fix i assume "i < length (Bits S)"
    with len have i: "i < Size S div 2" by simp
    then have "2 * i + 1 < Size S" by presburger
    with i cells show "Bits S ! i = map (\<lambda>i. is_prime (2 * i + 1)) [0..<Size S div 2] ! i" by simp
  qed
  then have "drop 1 (Bits S) = map (\<lambda>i. is_prime (2 * i + 1)) [1..<Size S div 2]"
    by (simp add: drop_map)
  then have "length (filter (\<lambda>b. b) (drop 1 (Bits S))) =
      length (filter (\<lambda>i. is_prime (2 * i + 1)) [1..<Size S div 2])"
    by (simp add: filter_map comp_def)
  with l show ?thesis by (simp add: countPrimes_eq count_trial_division)
qed


section \<open>The result of a run\<close>

lemma runSieve_countPrimes:
  assumes S0: "new_prime_sieve limit t = Inr S0" and t: "1 \<le> t"
    and fin: "joined (runSieve sched S0)" and l: "3 \<le> limit"
  shows "countPrimes (fst (runSieve sched S0)) = length (filter is_prime [0..<limit])"
proof -
  let ?S = "fst (runSieve sched S0)"
  note f = runSieve_fields [OF S0, of sched]
  from f have len: "length (Bits ?S) = Size ?S div 2" by simp
  from f l have l': "3 \<le> Size ?S" by simp
  have "Bits ?S ! i = is_prime (2 * i + 1)" if "2 * i + 1 < Size ?S" for i
    using that f runSieve_cells [OF S0 t fin, of i] by simp
  with len l' have "countPrimes ?S = length (filter is_prime [0..<Size ?S])"
    by (rule countPrimes_cells)
  with f show ?thesis by simp
qed

lemma runSieve_isPrime:
  assumes S0: "new_prime_sieve limit t = Inr S0" and t: "1 \<le> t"
    and fin: "joined (runSieve sched S0)" and n: "n < limit"
  shows "isPrime (fst (runSieve sched S0)) n = Inr (odd n \<and> is_prime n)"
proof (cases "odd n")
  case False
  then show ?thesis by (simp add: isPrime_def)
next
  case True
  then have e: "2 * (n div 2) + 1 = n" by presburger
  from True n have "n div 2 < limit div 2" by presburger
  with runSieve_fields [OF S0, of sched]
  have "isPrime (fst (runSieve sched S0)) n = Inr (Bits (fst (runSieve sched S0)) ! (n div 2))"
    using True by (simp add: isPrime_def)
  moreover from n e have "2 * (n div 2) + 1 < limit" by simp
  then have "Bits (fst (runSieve sched S0)) ! (n div 2) = is_prime (2 * (n div 2) + 1)"
    by (rule runSieve_cells [OF S0 t fin])
  ultimately show ?thesis using True e by simp
qed

lemma runSieve_Bits:
  assumes S0: "new_prime_sieve limit t = Inr S0" and t: "1 \<le> t"
    and fin: "joined (runSieve sched S0)"
  shows "Bits (fst (runSieve sched S0)) = map (\<lambda>i. is_prime (2 * i + 1)) [0..<limit div 2]"
proof (rule nth_equalityI)
  note f = runSieve_fields [OF S0, of sched]
  from f show "length (Bits (fst (runSieve sched S0))) =
      length (map (\<lambda>i. is_prime (2 * i + 1)) [0..<limit div 2])" by simp
  fix i assume "i < length (Bits (fst (runSieve sched S0)))"
  with f have i: "i < limit div 2" by simp
  then have "2 * i + 1 < limit" by presburger
  then have "Bits (fst (runSieve sched S0)) ! i = is_prime (2 * i + 1)"
    by (rule runSieve_cells [OF S0 t fin])
  with i show "Bits (fst (runSieve sched S0)) ! i = map (\<lambda>i. is_prime (2 * i + 1)) [0..<limit div 2] ! i"
    by simp
qed

text \<open>
  Claim C2. For every limit, two runs to completion, with any worker counts of at least 1
  (1, 2, 4 and 8 among them) and under any schedules, end with the same cells, the same
  count of \<^verbatim>\<open>countPrimes\<close> and the same answers of \<^verbatim>\<open>isPrime\<close>; and a run with any
  such worker count does come to completion.
\<close>

theorem worker_count_independent:
  assumes "new_prime_sieve limit t1 = Inr S1" and "new_prime_sieve limit t2 = Inr S2"
    and "1 \<le> t1" and "1 \<le> t2"
  shows "(\<exists>sched. joined (runSieve sched S1)) \<and> (\<exists>sched. joined (runSieve sched S2)) \<and>
         (\<forall>sched1 sched2. joined (runSieve sched1 S1) \<and> joined (runSieve sched2 S2) \<longrightarrow>
            Bits (fst (runSieve sched1 S1)) = Bits (fst (runSieve sched2 S2)) \<and>
            countPrimes (fst (runSieve sched1 S1)) = countPrimes (fst (runSieve sched2 S2)) \<and>
            (\<forall>n. isPrime (fst (runSieve sched1 S1)) n = isPrime (fst (runSieve sched2 S2)) n))"
proof (intro conjI allI impI)
  from assms(1,3) show "\<exists>sched. joined (runSieve sched S1)" by (rule runSieve_completes)
  from assms(2,4) show "\<exists>sched. joined (runSieve sched S2)" by (rule runSieve_completes)
next
  fix sched1 sched2
  assume fin: "joined (runSieve sched1 S1) \<and> joined (runSieve sched2 S2)"
  from fin have b1: "Bits (fst (runSieve sched1 S1)) = map (\<lambda>i. is_prime (2 * i + 1)) [0..<limit div 2]"
    by (intro runSieve_Bits [OF assms(1,3)]) simp
  from fin have b2: "Bits (fst (runSieve sched2 S2)) = map (\<lambda>i. is_prime (2 * i + 1)) [0..<limit div 2]"
    by (intro runSieve_Bits [OF assms(2,4)]) simp
  from b1 b2 show b: "Bits (fst (runSieve sched1 S1)) = Bits (fst (runSieve sched2 S2))" by simp
  have s: "Size (fst (runSieve sched1 S1)) = Size (fst (runSieve sched2 S2))"
    using runSieve_fields [OF assms(1), of sched1] runSieve_fields [OF assms(2), of sched2] by simp
  from b s show "countPrimes (fst (runSieve sched1 S1)) = countPrimes (fst (runSieve sched2 S2))"
    by (simp add: countPrimes_eq)
  fix n
  from b show "isPrime (fst (runSieve sched1 S1)) n = isPrime (fst (runSieve sched2 S2)) n"
    by (simp add: isPrime_def)
qed

theorem worker_count_independent_witness:
  "new_prime_sieve 50 1 = Inr \<lparr>Bits = (replicate 25 True)[0 := False], Size = 50, Threads = 1\<rparr> \<and>
   new_prime_sieve 50 2 = Inr \<lparr>Bits = (replicate 25 True)[0 := False], Size = 50, Threads = 2\<rparr> \<and>
   (1::nat) \<le> 1 \<and> (1::nat) \<le> 2 \<and>
   joined (runSieve (replicate 18 0) \<lparr>Bits = (replicate 25 True)[0 := False], Size = 50, Threads = 1\<rparr>) \<and>
   joined (runSieve (concat (replicate 10 [0, 1])) \<lparr>Bits = (replicate 25 True)[0 := False], Size = 50, Threads = 2\<rparr>) \<and>
   countPrimes (fst (runSieve (replicate 18 0) \<lparr>Bits = (replicate 25 True)[0 := False], Size = 50, Threads = 1\<rparr>)) =
   countPrimes (fst (runSieve (concat (replicate 10 [0, 1])) \<lparr>Bits = (replicate 25 True)[0 := False], Size = 50, Threads = 2\<rparr>))"
proof -
  let ?S1 = "\<lparr>Bits = (replicate 25 True)[0 := False], Size = 50, Threads = 1\<rparr>"
  let ?S2 = "\<lparr>Bits = (replicate 25 True)[0 := False], Size = 50, Threads = 2\<rparr>"
  have c1: "new_prime_sieve 50 1 = Inr ?S1" by (simp add: new_prime_sieve_Inr)
  have c2: "new_prime_sieve 50 2 = Inr ?S2" by (simp add: new_prime_sieve_Inr)
  have t1: "(1::nat) \<le> 1" and t2: "(1::nat) \<le> 2" by simp_all
  have j1: "joined (runSieve (replicate 18 0) ?S1)" by code_simp
  have j2: "joined (runSieve (concat (replicate 10 [0, 1])) ?S2)" by code_simp
  from worker_count_independent [OF c1 c2 t1 t2] j1 j2
  have "countPrimes (fst (runSieve (replicate 18 0) ?S1)) =
        countPrimes (fst (runSieve (concat (replicate 10 [0, 1])) ?S2))" by blast
  with c1 c2 t1 t2 j1 j2 show ?thesis by blast
qed


text \<open>
  Claim C3 as stated fails at the number 2: after a completed run with the limit 10,
  \<^verbatim>\<open>isPrime(2)\<close> is \<open>False\<close>, and 2 is prime by trial division.
\<close>

theorem isPrime_two_counterexample:
  "new_prime_sieve 10 1 = Inr \<lparr>Bits = [False, True, True, True, True], Size = 10, Threads = 1\<rparr> \<and>
   joined (runSieve [0, 0, 0, 0] \<lparr>Bits = [False, True, True, True, True], Size = 10, Threads = 1\<rparr>) \<and>
   (2::nat) < 10 \<and> is_prime 2 \<and>
   isPrime (fst (runSieve [0, 0, 0, 0] \<lparr>Bits = [False, True, True, True, True], Size = 10, Threads = 1\<rparr>)) 2
     = Inr False"
  by code_simp

text \<open>
  Claim C3, amended. After a completed run, for every \<open>n\<close> below the limit,
  \<^verbatim>\<open>isPrime(n)\<close> is \<open>True\<close> exactly when \<open>n\<close> is an odd prime by trial division: it
  agrees with trial division on every \<open>n\<close> except 2, for which it answers \<open>False\<close>. For
  the limit 10 the numbers reported prime by \<^verbatim>\<open>isPrime\<close> are exactly 3, 5 and 7.
\<close>

theorem isPrime_after_run:
  assumes "new_prime_sieve limit t = Inr S0" and "1 \<le> t" and "joined (runSieve sched S0)"
  shows "(\<forall>n < limit. isPrime (fst (runSieve sched S0)) n = Inr (is_prime n \<and> n \<noteq> 2)) \<and>
         (limit = 10 \<longrightarrow>
            filter (\<lambda>n. isPrime (fst (runSieve sched S0)) n = Inr True) [0..<limit] = [3, 5, 7])"
proof (intro conjI allI impI)
  have odd_prime: "(odd n \<and> is_prime n) = (is_prime n \<and> n \<noteq> 2)" for n
    using even_prime [of n] by auto
  show all: "isPrime (fst (runSieve sched S0)) n = Inr (is_prime n \<and> n \<noteq> 2)" if "n < limit" for n
    using runSieve_isPrime [OF assms that] by (simp only: odd_prime)
  assume l: "limit = 10"
  have 1: "filter (\<lambda>n. isPrime (fst (runSieve sched S0)) n = Inr True) [0..<limit]
      = filter (\<lambda>n. is_prime n \<and> n \<noteq> 2) [0..<limit]"
    by (rule filter_cong) (simp_all add: all)
  have 2: "filter (\<lambda>n. is_prime n \<and> n \<noteq> 2) [0..<10] = [3, 5, 7]" by code_simp
  from 1 2 show "filter (\<lambda>n. isPrime (fst (runSieve sched S0)) n = Inr True) [0..<limit] = [3, 5, 7]"
    by (simp only: l)
qed

theorem isPrime_after_run_witness:
  "new_prime_sieve 10 1 = Inr \<lparr>Bits = [False, True, True, True, True], Size = 10, Threads = 1\<rparr> \<and>
   (1::nat) \<le> 1 \<and>
   joined (runSieve [0, 0, 0, 0] \<lparr>Bits = [False, True, True, True, True], Size = 10, Threads = 1\<rparr>) \<and>
   isPrime (fst (runSieve [0, 0, 0, 0] \<lparr>Bits = [False, True, True, True, True], Size = 10, Threads = 1\<rparr>)) 9
     = Inr False \<and>
   filter (\<lambda>n. isPrime (fst (runSieve [0, 0, 0, 0] \<lparr>Bits = [False, True, True, True, True], Size = 10, Threads = 1\<rparr>)) n
     = Inr True) [0..<10] = [3, 5, 7]"
proof -
  let ?S = "\<lparr>Bits = [False, True, True, True, True], Size = 10, Threads = 1\<rparr>"
  have c: "new_prime_sieve 10 1 = Inr ?S" by code_simp
  have t: "(1::nat) \<le> 1" by simp
  have j: "joined (runSieve [0, 0, 0, 0] ?S)" by code_simp
  have np: "\<not> is_prime 9" by code_simp
  note r = isPrime_after_run [OF c t j]
  from r have "isPrime (fst (runSieve [0, 0, 0, 0] ?S)) 9 = Inr (is_prime 9 \<and> (9::nat) \<noteq> 2)" by simp
  with np have a: "isPrime (fst (runSieve [0, 0, 0, 0] ?S)) 9 = Inr False" by simp
  from r have b: "filter (\<lambda>n. isPrime (fst (runSieve [0, 0, 0, 0] ?S)) n = Inr True) [0..<10] = [3, 5, 7]"
    by simp
  from c t j a b show ?thesis by blast
qed

text \<open>
  Claim C6 as stated fails at the limit 3: the vector has the one cell of the number 1,
  the count after a completed run is 1, not 2, and the number 3 has no cell.
\<close>

theorem limit_three_counterexample:
  "new_prime_sieve 3 1 = Inr \<lparr>Bits = [False], Size = 3, Threads = 1\<rparr> \<and>
   joined (runSieve [0, 0, 0] \<lparr>Bits = [False], Size = 3, Threads = 1\<rparr>) \<and>
   countPrimes (fst (runSieve [0, 0, 0] \<lparr>Bits = [False], Size = 3, Threads = 1\<rparr>)) = 1 \<and>
   isPrime (fst (runSieve [0, 0, 0] \<lparr>Bits = [False], Size = 3, Threads = 1\<rparr>)) 3 = Inl OutOfBounds"
  by code_simp

text \<open>
  Claim C6, amended. After a completed run the sieve counts exactly one prime for the
  limit 2 and exactly one prime for the limit 3: the number 2, which \<^verbatim>\<open>countPrimes\<close>
  counts without a cell; the limit is exclusive, and \<^verbatim>\<open>isPrime\<close> answers \<open>False\<close> for
  every number below either limit.
\<close>

theorem small_limits:
  assumes "limit = 2 \<or> limit = 3" and "new_prime_sieve limit t = Inr S0" and "1 \<le> t"
    and "joined (runSieve sched S0)"
  shows "countPrimes (fst (runSieve sched S0)) = 1 \<and>
         (\<forall>n < limit. isPrime (fst (runSieve sched S0)) n = Inr False)"
proof -
  let ?S = "fst (runSieve sched S0)"
  from runSieve_Bits [OF assms(2,3,4)] assms(1)
  have "Bits ?S = map (\<lambda>i. is_prime (2 * i + 1)) [0..<1]" by auto
  then have b: "Bits ?S = [False]" by (simp add: is_prime_def)
  from runSieve_fields [OF assms(2), of sched] assms(1) have "2 \<le> Size ?S" by auto
  with b have "countPrimes ?S = 1" by (simp add: countPrimes_eq)
  moreover have "isPrime ?S n = Inr False" if "n < limit" for n
  proof -
    from that assms(1) have "n < 3" by auto
    then have "n div 2 = 0 \<or> n = 2" by presburger
    then have "odd n \<longrightarrow> n div 2 = 0" by auto
    with b show ?thesis by (auto simp: isPrime_def)
  qed
  ultimately show ?thesis by blast
qed

theorem small_limits_witness:
  "((3::nat) = 2 \<or> (3::nat) = 3) \<and>
   new_prime_sieve 3 1 = Inr \<lparr>Bits = [False], Size = 3, Threads = 1\<rparr> \<and> (1::nat) \<le> 1 \<and>
   joined (runSieve [0, 0, 0] \<lparr>Bits = [False], Size = 3, Threads = 1\<rparr>) \<and>
   countPrimes (fst (runSieve [0, 0, 0] \<lparr>Bits = [False], Size = 3, Threads = 1\<rparr>)) = 1 \<and>
   isPrime (fst (runSieve [0, 0, 0] \<lparr>Bits = [False], Size = 3, Threads = 1\<rparr>)) 2 = Inr False"
proof -
  let ?S = "\<lparr>Bits = [False], Size = 3, Threads = 1\<rparr>"
  have l: "(3::nat) = 2 \<or> (3::nat) = 3" by simp
  have c: "new_prime_sieve 3 1 = Inr ?S" by code_simp
  have t: "(1::nat) \<le> 1" by simp
  have j: "joined (runSieve [0, 0, 0] ?S)" by code_simp
  from small_limits [OF l c t j] l c t j show ?thesis by simp
qed


section \<open>The rounds of thread 0\<close>










section \<open>Legendre's formula\<close>

lemma descending_tail: "descending (p # ps) \<Longrightarrow> descending ps"
  by (cases ps) simp_all

lemma descending_less: "descending (p # ps) \<Longrightarrow> r \<in> set ps \<Longrightarrow> r < p"
proof (induction ps arbitrary: p)
  case Nil
  then show ?case by simp
next
  case (Cons q ps)
  from Cons.prems(1) have qp: "q < p" and d: "descending (q # ps)" by simp_all
  show ?case
  proof (cases "r = q")
    case True
    with qp show ?thesis by simp
  next
    case False
    with Cons.prems(2) have "r \<in> set ps" by simp
    with d have "r < q" by (rule Cons.IH)
    with qp show ?thesis by simp
  qed
qed

lemma descending_distinct: "descending ps \<Longrightarrow> distinct ps"
proof (induction ps)
  case Nil
  then show ?case by simp
next
  case (Cons p ps)
  from Cons.prems have "descending ps" by (rule descending_tail)
  then have "distinct ps" by (rule Cons.IH)
  moreover have "p \<notin> set ps" using descending_less [OF Cons.prems, of p] by auto
  ultimately show ?case by simp
qed

lemma is_prime_divisors:
  assumes "is_prime p" and "c dvd p"
  shows "c = 1 \<or> c = p"
proof (rule ccontr)
  assume n: "\<not> (c = 1 \<or> c = p)"
  from is_prime_ge2 [OF assms(1)] have p: "0 < p" by simp
  with assms(2) have "c \<le> p" by (rule dvd_imp_le)
  moreover from assms(2) p have "c \<noteq> 0" by auto
  ultimately have "2 \<le> c" "c < p" using n by simp_all
  with is_prime_dvd [OF assms(1)] assms(2) show False by blast
qed

lemma prime_dvd_mult:
  assumes q: "is_prime q" and d: "q dvd a * b"
  shows "q dvd a \<or> q dvd b"
proof (cases "q dvd a")
  case True
  then show ?thesis ..
next
  case False
  have "coprime q a"
  proof (rule coprimeI)
    fix c assume c: "c dvd q" "c dvd a"
    from is_prime_divisors [OF q c(1)] c(2) False show "is_unit c" by auto
  qed
  with d show ?thesis by (simp add: coprime_dvd_mult_right_iff)
qed

lemma prime_dvd_prime:
  assumes "is_prime q" and "is_prime p" and "q dvd p"
  shows "q = p"
  using is_prime_divisors [OF assms(2,3)] is_prime_ge2 [OF assms(1)] by auto

lemma finite_unsieved: "finite (unsieved x ps)"
proof -
  have "unsieved x ps \<subseteq> {..x}" by (auto simp: unsieved_def)
  then show ?thesis by (rule finite_subset) simp
qed

lemma unsieved_Nil: "card (unsieved x []) = x"
proof -
  have "unsieved x [] = {1..x}" by (auto simp: unsieved_def)
  then show ?thesis by simp
qed

lemma unsieved_Cons:
  assumes p: "is_prime p" and ps: "\<forall>q \<in> set ps. is_prime q \<and> q \<noteq> p"
  shows "card (unsieved x (p # ps)) = card (unsieved x ps) - card (unsieved (x div p) ps)"
proof -
  from is_prime_ge2 [OF p] have pos: "0 < p" by simp
  let ?B = "(\<lambda>m. p * m) ` unsieved (x div p) ps"
  have B: "?B = {n \<in> unsieved x ps. p dvd n}"
  proof (intro set_eqI iffI)
    fix n assume "n \<in> ?B"
    then obtain m where m: "n = p * m" "1 \<le> m" "m \<le> x div p" "\<forall>q \<in> set ps. \<not> q dvd m"
      by (auto simp: unsieved_def)
    from m(3) pos have "m * p \<le> x" by (simp add: less_eq_div_iff_mult_less_eq)
    then have le: "n \<le> x" by (simp add: m(1) mult.commute)
    from m(2) pos have ge: "1 \<le> n" by (simp add: m(1))
    have "\<not> q dvd n" if q: "q \<in> set ps" for q
    proof
      assume "q dvd n"
      with ps q have "q dvd p \<or> q dvd m" by (intro prime_dvd_mult) (simp_all add: m(1))
      moreover from ps q p have "\<not> q dvd p" using prime_dvd_prime by blast
      ultimately show False using m(4) q by blast
    qed
    with le ge show "n \<in> {n \<in> unsieved x ps. p dvd n}" by (simp add: unsieved_def m(1))
  next
    fix n assume "n \<in> {n \<in> unsieved x ps. p dvd n}"
    then have n: "1 \<le> n" "n \<le> x" "\<forall>q \<in> set ps. \<not> q dvd n" "p dvd n"
      by (simp_all add: unsieved_def)
    from n(4) obtain m where m: "n = p * m" by (auto elim: dvdE)
    from n(1) m have "1 \<le> m" by (cases m) simp_all
    moreover from n(2) pos have "m \<le> x div p"
      by (simp add: less_eq_div_iff_mult_less_eq m mult.commute)
    moreover from n(3) have "\<forall>q \<in> set ps. \<not> q dvd m" by (auto simp: m)
    ultimately have "m \<in> unsieved (x div p) ps" by (simp add: unsieved_def)
    with m show "n \<in> ?B" by blast
  qed
  have "unsieved x (p # ps) = unsieved x ps - ?B"
    unfolding B by (auto simp: unsieved_def)
  moreover have "?B \<subseteq> unsieved x ps" unfolding B by blast
  moreover have "finite ?B" by (intro finite_imageI finite_unsieved)
  ultimately have "card (unsieved x (p # ps)) = card (unsieved x ps) - card ?B"
    by (simp add: card_Diff_subset)
  moreover from pos have "inj_on (\<lambda>m. p * m) (unsieved (x div p) ps)" by (simp add: inj_on_def)
  then have "card ?B = card (unsieved (x div p) ps)" by (rule card_image)
  ultimately show ?thesis by simp
qed

lemma primes_down_tail: "primes_down (p # ps) \<Longrightarrow> primes_down ps"
  unfolding primes_down_def
proof (intro conjI ballI allI impI)
  assume a: "(\<forall>p' \<in> set (p # ps). is_prime p' \<and> (\<forall>q. is_prime q \<and> q \<le> p' \<longrightarrow> q \<in> set (p # ps))) \<and>
      descending (p # ps)"
  then show "descending ps" using descending_tail by blast
  fix r assume r: "r \<in> set ps"
  with a show "is_prime r" by simp
  fix q assume q: "is_prime q \<and> q \<le> r"
  with a r have "q \<in> set (p # ps)" by auto
  moreover from a r have "r < p" using descending_less by blast
  ultimately show "q \<in> set ps" using q by auto
qed

lemma primes_down_head:
  assumes "primes_down (p # ps)"
  shows "is_prime p" and "\<forall>q \<in> set ps. is_prime q \<and> q \<noteq> p"
proof -
  from assms show "is_prime p" unfolding primes_down_def by simp
  from assms have "descending (p # ps)" unfolding primes_down_def by simp
  then have "\<forall>q \<in> set ps. q \<noteq> p" using descending_less [of p ps] by auto
  moreover from assms have "\<forall>q \<in> set ps. is_prime q" unfolding primes_down_def by simp
  ultimately show "\<forall>q \<in> set ps. is_prime q \<and> q \<noteq> p" by blast
qed

lemma unsieved_small:
  assumes pd: "primes_down (p # ps)" and x: "1 \<le> x" "x \<le> p"
  shows "unsieved x (p # ps) = {1}"
proof (intro set_eqI iffI)
  fix n assume n: "n \<in> unsieved x (p # ps)"
  show "n \<in> {1}"
  proof (rule ccontr)
    assume "n \<notin> {1}"
    with n have n1: "1 < n" by (simp add: unsieved_def)
    obtain r where r: "is_prime r" "r dvd n"
    proof (cases "is_prime n")
      case True
      then show ?thesis using that [of n] by simp
    next
      case False
      with prime_factor_le_sqrt [OF n1] that show ?thesis by blast
    qed
    from r(2) n1 have "r \<le> n" by (intro dvd_imp_le) simp_all
    with n x have "r \<le> p" by (simp add: unsieved_def)
    with pd r(1) have "r \<in> set (p # ps)" unfolding primes_down_def by auto
    with n r(2) show False by (auto simp: unsieved_def)
  qed
next
  fix n assume "n \<in> {1::nat}"
  then have n: "n = 1" by simp
  have "\<not> q dvd 1" if "q \<in> set (p # ps)" for q
  proof -
    from pd that have "is_prime q" unfolding primes_down_def by blast
    from is_prime_ge2 [OF this] show ?thesis by simp
  qed
  with x show "n \<in> unsieved x (p # ps)" by (simp add: unsieved_def n)
qed

lemma legendre_card: "primes_down ps \<Longrightarrow> legendre x ps = card (unsieved x ps)"
proof (induction x ps rule: legendre.induct)
  case (1 x)
  then show ?case by (simp add: unsieved_Nil)
next
  case (2 x p)
  from primes_down_head [OF 2] have "card (unsieved x [p]) = card (unsieved x []) - card (unsieved (x div p) [])"
    by (intro unsieved_Cons) simp_all
  then show ?case by (simp add: unsieved_Nil)
next
  case (3 x p q ps)
  note pd = "3.prems"
  show ?case
  proof (cases "x \<le> p")
    case True
    show ?thesis
    proof (cases "x = 0")
      case True
      then have "unsieved x (p # q # ps) = {}" by (auto simp: unsieved_def)
      with True show ?thesis by simp
    next
      case False
      with True pd have "unsieved x (p # q # ps) = {1}" by (intro unsieved_small) simp_all
      with True False show ?thesis by simp
    qed
  next
    case False
    from pd have pd': "primes_down (q # ps)" by (rule primes_down_tail)
    from False "3.IH" pd' have "legendre x (q # ps) = card (unsieved x (q # ps))"
      and "legendre (x div p) (q # ps) = card (unsieved (x div p) (q # ps))" by simp_all
    moreover from primes_down_head [OF pd]
    have "card (unsieved x (p # q # ps)) =
        card (unsieved x (q # ps)) - card (unsieved (x div p) (q # ps))"
      by (intro unsieved_Cons) simp_all
    ultimately show ?thesis using False by simp
  qed
qed

lemma legendre_pi:
  assumes pd: "primes_down ps" and le: "\<forall>p \<in> set ps. p \<le> x"
    and cover: "\<forall>q. is_prime q \<and> q * q \<le> x \<longrightarrow> q \<in> set ps" and x: "1 \<le> x"
  shows "card {p. is_prime p \<and> p \<le> x} = legendre x ps + length ps - 1"
proof -
  let ?P = "{p. is_prime p \<and> p \<le> x}"
  have fin: "finite ?P" by simp
  from pd le have sub: "set ps \<subseteq> ?P" unfolding primes_down_def by auto
  from pd have "distinct ps" by (simp add: primes_down_def descending_distinct)
  then have len: "card (set ps) = length ps" by (rule distinct_card)
  have u: "unsieved x ps = insert 1 (?P - set ps)"
  proof (intro set_eqI iffI)
    fix n assume n: "n \<in> unsieved x ps"
    show "n \<in> insert 1 (?P - set ps)"
    proof (cases "n = 1")
      case True
      then show ?thesis by simp
    next
      case False
      with n have n1: "1 < n" by (simp add: unsieved_def)
      have "is_prime n"
      proof (rule ccontr)
        assume "\<not> is_prime n"
        from prime_factor_le_sqrt [OF n1 this] obtain r where
          r: "is_prime r" "r dvd n" "r * r \<le> n" by blast
        from r(3) n have "r * r \<le> x" by (simp add: unsieved_def)
        with cover r(1) have "r \<in> set ps" by blast
        with n r(2) show False by (simp add: unsieved_def)
      qed
      moreover from n have "n \<notin> set ps" by (auto simp: unsieved_def)
      moreover from n have "n \<le> x" by (simp add: unsieved_def)
      ultimately show ?thesis by simp
    qed
  next
    fix n assume n: "n \<in> insert 1 (?P - set ps)"
    have prime: "\<And>q. q \<in> set ps \<Longrightarrow> is_prime q" using pd unfolding primes_down_def by blast
    from n consider "n = 1" | "is_prime n" "n \<le> x" "n \<notin> set ps" by auto
    then show "n \<in> unsieved x ps"
    proof cases
      case 1
      have "\<not> q dvd 1" if "q \<in> set ps" for q
        using is_prime_ge2 [OF prime [OF that]] by simp
      with x 1 show ?thesis by (simp add: unsieved_def)
    next
      case 2
      have "\<not> q dvd n" if "q \<in> set ps" for q
      proof
        assume "q dvd n"
        with prime [OF that] 2(1) have "q = n" by (rule prime_dvd_prime)
        with that 2(3) show False by simp
      qed
      with 2 is_prime_ge2 [OF 2(1)] show ?thesis by (simp add: unsieved_def)
    qed
  qed
  have "1 \<notin> ?P - set ps" by (simp add: is_prime_def)
  with fin have "card (unsieved x ps) = 1 + card (?P - set ps)" by (simp add: u)
  also from sub have "card (?P - set ps) = card ?P - card (set ps)"
    by (intro card_Diff_subset) simp_all
  finally have "card (unsieved x ps) = 1 + (card ?P - length ps)" by (simp add: len)
  moreover from sub fin have "length ps \<le> card ?P"
    unfolding len [symmetric] by (intro card_mono)
  ultimately show ?thesis by (simp add: legendre_card [OF pd])
qed

lemma primes_by_count:
  assumes "distinct ps" and "\<forall>p \<in> set ps. is_prime p \<and> p \<le> y"
    and "card {p. is_prime p \<and> p \<le> y} = length ps"
  shows "set ps = {p. is_prime p \<and> p \<le> y}"
proof (rule card_subset_eq)
  show "finite {p. is_prime p \<and> p \<le> y}" by simp
  from assms(2) show "set ps \<subseteq> {p. is_prime p \<and> p \<le> y}" by blast
  from assms(1,3) show "card (set ps) = card {p. is_prime p \<and> p \<le> y}"
    by (simp add: distinct_card)
qed

lemma primes_downI:
  assumes "set ps = {p. is_prime p \<and> p \<le> y}" and "descending ps"
  shows "primes_down ps"
  using assms unfolding primes_down_def by auto

lemma cover_sqrt:
  assumes "set qs = {p. is_prime p \<and> p \<le> y}" and "x < (y + 1) * (y + 1)"
  shows "\<forall>q. is_prime q \<and> q * q \<le> x \<longrightarrow> q \<in> set qs"
proof (intro allI impI)
  fix q assume q: "is_prime q \<and> q * q \<le> x"
  have "q \<le> y"
  proof (rule ccontr)
    assume "\<not> q \<le> y"
    then have le: "y + 1 \<le> q" by simp
    have "(y + 1) * (y + 1) \<le> q * q" by (rule mult_le_mono [OF le le])
    with q assms(2) show False by simp
  qed
  with q assms(1) show "q \<in> set qs" by simp
qed

lemma prime_by_small:
  assumes cover: "\<forall>q. is_prime q \<and> q * q \<le> y \<longrightarrow> q \<in> set qs"
    and n: "1 < n" "n \<le> y" and t: "\<forall>q \<in> set qs. n < q * q \<or> \<not> q dvd n"
  shows "is_prime n"
proof (rule ccontr)
  assume "\<not> is_prime n"
  from prime_factor_le_sqrt [OF n(1) this] obtain r where
    r: "is_prime r" "r dvd n" "r * r \<le> n" by blast
  from r(3) n(2) have "r * r \<le> y" by simp
  with cover r(1) have "r \<in> set qs" by blast
  with t r(2,3) show False by auto
qed

lemma primes_by_small:
  assumes cover: "\<forall>q. is_prime q \<and> q * q \<le> y \<longrightarrow> q \<in> set qs"
    and t: "list_all (\<lambda>n. 1 < n \<and> n \<le> y \<and> list_all (\<lambda>q. n < q * q \<or> \<not> q dvd n) qs) ps"
  shows "\<forall>p \<in> set ps. is_prime p \<and> p \<le> y"
proof
  fix p assume "p \<in> set ps"
  with t have "1 < p" "p \<le> y" "\<forall>q \<in> set qs. p < q * q \<or> \<not> q dvd p"
    by (simp_all add: list_all_iff)
  with cover show "is_prime p \<and> p \<le> y" using prime_by_small [of y qs p] by blast
qed

lemma legendre_peel:
  assumes "\<forall>p \<in> set ps. p < x"
  shows "legendre x (ps @ qs) = legendre x qs - peel x ps qs"
  using assms
proof (induction ps)
  case Nil
  then show ?case by simp
next
  case (Cons p ps)
  then have IH: "legendre x (ps @ qs) = legendre x qs - peel x ps qs" and px: "\<not> x \<le> p"
    by simp_all
  have "legendre x (p # (ps @ qs)) = legendre x (ps @ qs) - legendre (x div p) (ps @ qs)"
  proof (cases "ps @ qs")
    case Nil
    then show ?thesis by simp
  next
    case (Cons q rest)
    with px show ?thesis by simp
  qed
  with IH show ?case by (simp add: diff_diff_left add.commute)
qed

text \<open>The count of the primes below a limit, from the count up to a bound.\<close>

lemma count_below:
  assumes "card {p. is_prime p \<and> p \<le> x} = c"
  shows "length (filter is_prime [0..<Suc x]) = c"
proof -
  have "{i. 0 \<le> i \<and> i < Suc x \<and> is_prime i} = {p. is_prime p \<and> p \<le> x}" by auto
  with assms show ?thesis by (simp only: length_filter_upt)
qed

text \<open>
  One level of the count: from the primes up to \<open>z\<close>, the list of the primes up to any
  \<open>y\<close> below \<open>(z + 1)\<^sup>2\<close> is checked by trial division with the known primes and
  by its length, which Legendre's formula gives.
\<close>

lemma primes_level:
  assumes qs: "set qs = {p. is_prime p \<and> p \<le> z}" "primes_down qs"
    and y: "y < (z + 1) * (z + 1)" "1 \<le> y" "z \<le> y"
    and ps: "list_all (\<lambda>n. 1 < n \<and> n \<le> y \<and> list_all (\<lambda>q. n < q * q \<or> \<not> q dvd n) qs) ps"
      "descending ps"
    and count: "legendre y qs + length qs - 1 = length ps"
  shows "set ps = {p. is_prime p \<and> p \<le> y}" and "primes_down ps"
proof -
  from qs(1) y(1) have cover: "\<forall>q. is_prime q \<and> q * q \<le> y \<longrightarrow> q \<in> set qs" by (rule cover_sqrt)
  from qs(1) y(3) have le: "\<forall>p \<in> set qs. p \<le> y" by auto
  from legendre_pi [OF qs(2) le cover y(2)] count
  have "card {p. is_prime p \<and> p \<le> y} = length ps" by simp
  moreover from ps(2) have "distinct ps" by (rule descending_distinct)
  moreover from cover ps(1) have "\<forall>p \<in> set ps. is_prime p \<and> p \<le> y" by (rule primes_by_small)
  ultimately show s: "set ps = {p. is_prime p \<and> p \<le> y}" by (intro primes_by_count)
  from s ps(2) show "primes_down ps" by (rule primes_downI)
qed

lemma primes_upto_2: "set [2] = {p. is_prime p \<and> p \<le> 2}"
  by (auto simp: is_prime_2 dest!: is_prime_ge2)

lemma primes_down_2: "primes_down [2]"
  using primes_upto_2 by (rule primes_downI) simp

lemma primes_upto_5: "set [5, 3, 2] = {p. is_prime p \<and> p \<le> 5}"
  by (rule primes_level [OF primes_upto_2 primes_down_2]) simp_all

lemma primes_down_5: "primes_down [5, 3, 2]"
  by (rule primes_level(2) [OF primes_upto_2 primes_down_2, where y = 5]) simp_all

lemma pi_count:
  assumes "set ps = {p. is_prime p \<and> p \<le> y}" and "descending ps"
  shows "card {p. is_prime p \<and> p \<le> y} = length ps"
  using distinct_card [OF descending_distinct [OF assms(2)]] by (simp add: assms(1))

lemma pi_legendre:
  assumes qs: "set qs = {p. is_prime p \<and> p \<le> z}" "primes_down qs"
    and x: "x < (z + 1) * (z + 1)" "1 \<le> x" "z \<le> x"
  shows "card {p. is_prime p \<and> p \<le> x} = legendre x qs + length qs - 1"
proof -
  from qs(1) x(1) have cover: "\<forall>q. is_prime q \<and> q * q \<le> x \<longrightarrow> q \<in> set qs" by (rule cover_sqrt)
  from qs(1) x(3) have le: "\<forall>p \<in> set qs. p \<le> x" by auto
  from qs(2) le cover x(2) show ?thesis by (rule legendre_pi)
qed

section \<open>The primes below one million\<close>

lemma primes_upto_31: "set primes_31 = {p. is_prime p \<and> p \<le> 31}"
  by (rule primes_level [OF primes_upto_5 primes_down_5]) (simp_all add: primes_31_def)

lemma primes_down_31: "primes_down primes_31"
  by (rule primes_level(2) [OF primes_upto_5 primes_down_5, where y = 31])
    (simp_all add: primes_31_def)

lemma trial_997:
  "list_all (\<lambda>n. 1 < n \<and> n \<le> 999 \<and> list_all (\<lambda>q. n < q * q \<or> \<not> q dvd n) primes_31) primes_997"
  by (simp add: primes_31_def primes_103_def primes_191_def primes_347_def primes_547_def primes_769_def primes_997_def)

lemma descending_997: "descending primes_997"
  by (simp add: primes_31_def primes_103_def primes_191_def primes_347_def primes_547_def primes_769_def primes_997_def)

lemma length_997: "length primes_997 = 168"
  by (simp add: primes_31_def primes_103_def primes_191_def primes_347_def primes_547_def primes_769_def primes_997_def)

lemma length_31: "length primes_31 = 11"
  by (simp add: primes_31_def)

lemma legendre_999: "legendre 999 primes_31 = 158"
  by (simp add: primes_31_def)

lemma primes_upto_999: "set primes_997 = {p. is_prime p \<and> p \<le> 999}"
  by (rule primes_level [OF primes_upto_31 primes_down_31 _ _ _ trial_997 descending_997])
    (simp_all add: legendre_999 length_997 length_31)

lemma primes_down_997: "primes_down primes_997"
  using primes_upto_999 descending_997 by (rule primes_downI)

lemma legendre_103: "legendre 999999 primes_103 = 118392"
  by (simp add: primes_103_def primes_31_def)

lemma peel_191:
  "peel 999999
     [191, 181, 179, 173, 167, 163, 157, 151, 149, 139, 137, 131, 127, 113, 109, 107]
     primes_103 = 13727"
  by (simp add: primes_31_def primes_103_def)

lemma peel_347:
  "peel 999999
     [347, 337, 331, 317, 313, 311, 307, 293, 283, 281, 277, 271, 269, 263, 257,
      251, 241, 239, 233, 229, 227, 223, 211, 199, 197, 193]
     primes_191 = 12512"
  by (simp add: primes_31_def primes_103_def primes_191_def)

lemma peel_547:
  "peel 999999
     [547, 541, 523, 521, 509, 503, 499, 491, 487, 479, 467, 463, 461, 457, 449,
      443, 439, 433, 431, 421, 419, 409, 401, 397, 389, 383, 379, 373, 367, 359,
      353, 349]
     primes_347 = 8256"
  by (simp add: primes_31_def primes_103_def primes_191_def primes_347_def)

lemma peel_769:
  "peel 999999
     [769, 761, 757, 751, 743, 739, 733, 727, 719, 709, 701, 691, 683, 677, 673,
      661, 659, 653, 647, 643, 641, 631, 619, 617, 613, 607, 601, 599, 593, 587,
      577, 571, 569, 563, 557]
     primes_547 = 4386"
  by (simp add: primes_31_def primes_103_def primes_191_def primes_347_def primes_547_def)

lemma peel_997:
  "peel 999999
     [997, 991, 983, 977, 971, 967, 953, 947, 941, 937, 929, 919, 911, 907, 887,
      883, 881, 877, 863, 859, 857, 853, 839, 829, 827, 823, 821, 811, 809, 797,
      787, 773]
     primes_769 = 1180"
  by (simp add: primes_31_def primes_103_def primes_191_def primes_347_def primes_547_def primes_769_def)

lemma legendre_191: "legendre 999999 primes_191 = 104665"
  unfolding primes_191_def
  by (subst legendre_peel) (simp_all only: peel_191 legendre_103, simp_all)

lemma legendre_347: "legendre 999999 primes_347 = 92153"
  unfolding primes_347_def
  by (subst legendre_peel) (simp_all only: peel_347 legendre_191, simp_all)

lemma legendre_547: "legendre 999999 primes_547 = 83897"
  unfolding primes_547_def
  by (subst legendre_peel) (simp_all only: peel_547 legendre_347, simp_all)

lemma legendre_769: "legendre 999999 primes_769 = 79511"
  unfolding primes_769_def
  by (subst legendre_peel) (simp_all only: peel_769 legendre_547, simp_all)

lemma legendre_997: "legendre 999999 primes_997 = 78331"
  unfolding primes_997_def
  by (subst legendre_peel) (simp_all only: peel_997 legendre_769, simp_all)

lemma pi_9: "card {p. is_prime p \<and> p \<le> 9} = 4"
  by (subst pi_legendre [OF primes_upto_5 primes_down_5]) simp_all

lemma pi_99: "card {p. is_prime p \<and> p \<le> 99} = 25"
  by (subst pi_legendre [OF primes_upto_31 primes_down_31]) (simp_all add: primes_31_def)

lemma pi_999: "card {p. is_prime p \<and> p \<le> 999} = 168"
  using pi_count [OF primes_upto_999 descending_997] by (simp add: length_997)

lemma pi_999999: "card {p. is_prime p \<and> p \<le> 999999} = 78498"
  by (subst pi_legendre [OF primes_upto_999 primes_down_997])
    (simp_all add: legendre_997 length_997)

lemma primes_down_append: "primes_down (xs @ ys) \<Longrightarrow> primes_down ys"
proof (induction xs)
  case Nil
  then show ?case by simp
next
  case (Cons x xs)
  from Cons.prems have "primes_down (xs @ ys)" by (simp add: primes_down_tail)
  then show ?case by (rule Cons.IH)
qed

lemma primes_down_set:
  assumes "primes_down (p # ps)"
  shows "set (p # ps) = {q. is_prime q \<and> q \<le> p}"
proof (intro set_eqI iffI)
  fix r assume r: "r \<in> set (p # ps)"
  with assms have "is_prime r" unfolding primes_down_def by blast
  moreover from assms have "descending (p # ps)" unfolding primes_down_def by blast
  with r have "r \<le> p" using descending_less [of p ps r] by auto
  ultimately show "r \<in> {q. is_prime q \<and> q \<le> p}" by simp
next
  fix r assume "r \<in> {q. is_prime q \<and> q \<le> p}"
  with assms show "r \<in> set (p # ps)" unfolding primes_down_def by auto
qed

lemma primes_down_769: "primes_down primes_769"
  using primes_down_997 unfolding primes_997_def by (rule primes_down_append)

lemma primes_down_547: "primes_down primes_547"
  using primes_down_769 unfolding primes_769_def by (rule primes_down_append)

lemma primes_down_347: "primes_down primes_347"
  using primes_down_547 unfolding primes_547_def by (rule primes_down_append)

lemma primes_down_191: "primes_down primes_191"
  using primes_down_347 unfolding primes_347_def by (rule primes_down_append)

lemma primes_down_103: "primes_down primes_103"
  using primes_down_191 unfolding primes_191_def by (rule primes_down_append)

lemma primes_upto_103: "set primes_103 = {p. is_prime p \<and> p \<le> 103}"
proof -
  have e: "primes_103 = 103 # tl primes_103" by (simp add: primes_103_def)
  from primes_down_103 have "primes_down (103 # tl primes_103)" by (simp only: e [symmetric])
  from primes_down_set [OF this] show ?thesis by (simp only: e [symmetric])
qed

lemma primes_upto_347: "set primes_347 = {p. is_prime p \<and> p \<le> 347}"
proof -
  have e: "primes_347 = 347 # tl primes_347" by (simp add: primes_347_def)
  from primes_down_347 have "primes_down (347 # tl primes_347)" by (simp only: e [symmetric])
  from primes_down_set [OF this] show ?thesis by (simp only: e [symmetric])
qed

lemma legendre_9999: "legendre 9999 primes_103 = 1203"
  by (simp add: primes_103_def primes_31_def)

lemma legendre_99999: "legendre 99999 primes_347 = 9524"
  by (simp add: primes_347_def primes_191_def primes_103_def primes_31_def)

lemma pi_9999: "card {p. is_prime p \<and> p \<le> 9999} = 1229"
  by (subst pi_legendre [OF primes_upto_103 primes_down_103])
    (simp_all add: legendre_9999, simp add: primes_103_def primes_31_def)

lemma pi_99999: "card {p. is_prime p \<and> p \<le> 99999} = 9592"
  by (subst pi_legendre [OF primes_upto_347 primes_down_347])
    (simp_all add: legendre_99999,
     simp add: primes_347_def primes_191_def primes_103_def primes_31_def)

lemma primes_below_10000: "length (filter is_prime [0..<10000]) = 1229"
  using count_below [OF pi_9999] by simp

lemma primes_below_100000: "length (filter is_prime [0..<100000]) = 9592"
  using count_below [OF pi_99999] by simp

lemma primes_below_10: "length (filter is_prime [0..<10]) = 4"
  using count_below [OF pi_9] by simp

lemma primes_below_100: "length (filter is_prime [0..<100]) = 25"
  using count_below [OF pi_99] by simp

lemma primes_below_1000: "length (filter is_prime [0..<1000]) = 168"
  using count_below [OF pi_999] by simp

lemma primes_below_1000000: "length (filter is_prime [0..<1000000]) = 78498"
  using count_below [OF pi_999999] by simp


section \<open>The counts of the dictionary\<close>

lemmas known_counts =
  primes_below_10 primes_below_100 primes_below_1000
  primes_below_10000 primes_below_100000 primes_below_1000000

lemma table_counts:
  assumes "(limit, c) \<in> set resultsDictionary" and "limit \<le> 1000000"
  shows "3 \<le> limit \<and> length (filter is_prime [0..<limit]) = c"
proof -
  from assms consider "limit = 10" "c = 4" | "limit = 100" "c = 25" | "limit = 1000" "c = 168"
    | "limit = 10000" "c = 1229" | "limit = 100000" "c = 9592" | "limit = 1000000" "c = 78498"
    by (auto simp: resultsDictionary_def)
  then show ?thesis
  proof cases
    case 1
    have "(3::nat) \<le> 10" by simp
    with known_counts(1) show ?thesis unfolding 1 by (rule conjI [rotated])
  next
    case 2
    have "(3::nat) \<le> 100" by simp
    with known_counts(2) show ?thesis unfolding 2 by (rule conjI [rotated])
  next
    case 3
    have "(3::nat) \<le> 1000" by simp
    with known_counts(3) show ?thesis unfolding 3 by (rule conjI [rotated])
  next
    case 4
    have "(3::nat) \<le> 10000" by simp
    with known_counts(4) show ?thesis unfolding 4 by (rule conjI [rotated])
  next
    case 5
    have "(3::nat) \<le> 100000" by simp
    with known_counts(5) show ?thesis unfolding 5 by (rule conjI [rotated])
  next
    case 6
    have "(3::nat) \<le> 1000000" by simp
    with known_counts(6) show ?thesis unfolding 6 by (rule conjI [rotated])
  qed
qed

text \<open>
  After a completed run, under any schedule of the threads, cell \<open>i\<close> is \<open>True\<close> exactly
  when \<open>2 * i + 1\<close> is prime, for every \<open>i\<close> with \<open>2 * i + 1\<close> below the limit, and a run
  does come to completion. So \<^verbatim>\<open>countPrimes\<close> is the number of the primes below the limit
  (for a limit of at least 3). For the six limits of the dictionary up to one million
  that number is the count the dictionary holds. The four entries above one million
  (664579, 5761455, 50847534 and 455052511 for the powers of ten from \<open>10 ^ 7\<close> to
  \<open>10 ^ 10\<close>) are not covered: the number of the primes below those limits is not
  evaluated here.
\<close>

lemma run_marks_primes:
  assumes S0: "new_prime_sieve limit t = Inr S0" and t: "1 \<le> t"
  shows "(\<exists>sched. joined (runSieve sched S0)) \<and>
         (\<forall>sched. joined (runSieve sched S0) \<longrightarrow>
            (\<forall>i. 2 * i + 1 < limit \<longrightarrow> Bits (fst (runSieve sched S0)) ! i = is_prime (2 * i + 1)) \<and>
            (3 \<le> limit \<longrightarrow>
               countPrimes (fst (runSieve sched S0)) = length (filter is_prime [0..<limit])) \<and>
            (\<forall>c. (limit, c) \<in> set resultsDictionary \<and> limit \<le> 1000000 \<longrightarrow>
               countPrimes (fst (runSieve sched S0)) = c) \<and>
            (limit = 10 \<longrightarrow> countPrimes (fst (runSieve sched S0)) = 4) \<and>
            (limit = 100 \<longrightarrow> countPrimes (fst (runSieve sched S0)) = 25) \<and>
            (limit = 1000 \<longrightarrow> countPrimes (fst (runSieve sched S0)) = 168) \<and>
            (limit = 1000000 \<longrightarrow> countPrimes (fst (runSieve sched S0)) = 78498))"
proof (rule conjI)
  from S0 t show "\<exists>sched. joined (runSieve sched S0)" by (rule runSieve_completes)
next
  have "(\<forall>i. 2 * i + 1 < limit \<longrightarrow> Bits (fst (runSieve sched S0)) ! i = is_prime (2 * i + 1)) \<and>
        (3 \<le> limit \<longrightarrow>
           countPrimes (fst (runSieve sched S0)) = length (filter is_prime [0..<limit])) \<and>
        (\<forall>c. (limit, c) \<in> set resultsDictionary \<and> limit \<le> 1000000 \<longrightarrow>
           countPrimes (fst (runSieve sched S0)) = c) \<and>
        (limit = 10 \<longrightarrow> countPrimes (fst (runSieve sched S0)) = 4) \<and>
        (limit = 100 \<longrightarrow> countPrimes (fst (runSieve sched S0)) = 25) \<and>
        (limit = 1000 \<longrightarrow> countPrimes (fst (runSieve sched S0)) = 168) \<and>
        (limit = 1000000 \<longrightarrow> countPrimes (fst (runSieve sched S0)) = 78498)"
    if fin: "joined (runSieve sched S0)" for sched
  proof -
    have cells: "\<forall>i. 2 * i + 1 < limit \<longrightarrow> Bits (fst (runSieve sched S0)) ! i = is_prime (2 * i + 1)"
      using runSieve_cells [OF S0 t fin] by blast
    have count: "countPrimes (fst (runSieve sched S0)) = length (filter is_prime [0..<limit])"
      if "3 \<le> limit"
      using S0 t fin that by (rule runSieve_countPrimes)
    have table: "countPrimes (fst (runSieve sched S0)) = c"
      if "(limit, c) \<in> set resultsDictionary" "limit \<le> 1000000" for c
      using table_counts [OF that] count by simp
    have key: "(n, c) \<in> set resultsDictionary \<and> n \<le> 1000000"
      if "(n, c) \<in> {(10, 4), (100, 25), (1000, 168), (1000000, 78498)}" for n c :: nat
      using that by (auto simp: resultsDictionary_def)
    have "countPrimes (fst (runSieve sched S0)) = 4" if "limit = 10"
      using table [of 4] key [of 10 4] that by simp
    moreover have "countPrimes (fst (runSieve sched S0)) = 25" if "limit = 100"
      using table [of 25] key [of 100 25] that by simp
    moreover have "countPrimes (fst (runSieve sched S0)) = 168" if "limit = 1000"
      using table [of 168] key [of 1000 168] that by simp
    moreover have "countPrimes (fst (runSieve sched S0)) = 78498" if "limit = 1000000"
      using table [of 78498] key [of 1000000 78498] that by simp
    ultimately show ?thesis using cells count table by blast
  qed
  then show "\<forall>sched. joined (runSieve sched S0) \<longrightarrow>
            (\<forall>i. 2 * i + 1 < limit \<longrightarrow> Bits (fst (runSieve sched S0)) ! i = is_prime (2 * i + 1)) \<and>
            (3 \<le> limit \<longrightarrow>
               countPrimes (fst (runSieve sched S0)) = length (filter is_prime [0..<limit])) \<and>
            (\<forall>c. (limit, c) \<in> set resultsDictionary \<and> limit \<le> 1000000 \<longrightarrow>
               countPrimes (fst (runSieve sched S0)) = c) \<and>
            (limit = 10 \<longrightarrow> countPrimes (fst (runSieve sched S0)) = 4) \<and>
            (limit = 100 \<longrightarrow> countPrimes (fst (runSieve sched S0)) = 25) \<and>
            (limit = 1000 \<longrightarrow> countPrimes (fst (runSieve sched S0)) = 168) \<and>
            (limit = 1000000 \<longrightarrow> countPrimes (fst (runSieve sched S0)) = 78498)"
    by blast
qed

lemma run_marks_primes_example:
  "new_prime_sieve 10 2 = Inr \<lparr>Bits = [False, True, True, True, True], Size = 10, Threads = 2\<rparr> \<and>
   (1::nat) \<le> 2 \<and>
   joined (runSieve [0, 1, 0, 0, 0] \<lparr>Bits = [False, True, True, True, True], Size = 10, Threads = 2\<rparr>) \<and>
   (2 * 4 + 1 < (10::nat)) \<and>
   Bits (fst (runSieve [0, 1, 0, 0, 0] \<lparr>Bits = [False, True, True, True, True], Size = 10, Threads = 2\<rparr>)) ! 4
     = is_prime 9 \<and>
   (10, 4) \<in> set resultsDictionary \<and>
   countPrimes (fst (runSieve [0, 1, 0, 0, 0] \<lparr>Bits = [False, True, True, True, True], Size = 10, Threads = 2\<rparr>))
     = 4"
proof -
  let ?S = "\<lparr>Bits = [False, True, True, True, True], Size = 10, Threads = 2\<rparr>"
  have c: "new_prime_sieve 10 2 = Inr ?S" by code_simp
  have t: "(1::nat) \<le> 2" by simp
  have j: "joined (runSieve [0, 1, 0, 0, 0] ?S)" by code_simp
  have i: "2 * 4 + 1 < (10::nat)" by simp
  have d: "(10, 4) \<in> set resultsDictionary" by (simp add: resultsDictionary_def)
  from run_marks_primes [OF c t] j
  have r: "(\<forall>i. 2 * i + 1 < 10 \<longrightarrow> Bits (fst (runSieve [0, 1, 0, 0, 0] ?S)) ! i = is_prime (2 * i + 1))"
    "countPrimes (fst (runSieve [0, 1, 0, 0, 0] ?S)) = 4"
    by blast+
  from r(1) i have "Bits (fst (runSieve [0, 1, 0, 0, 0] ?S)) ! 4 = is_prime (2 * 4 + 1)" by blast
  then have b: "Bits (fst (runSieve [0, 1, 0, 0, 0] ?S)) ! 4 = is_prime 9" by simp
  from c t j i b d r(2) show ?thesis by blast
qed

end
